theory Spec2Isabelle
  imports
    Complex_Main
    "HOL-Library.AList"
    "HOL-Library.Char_ord"
    "HOL-Library.List_Lexorder"
    "HOL-Library.Product_Lexorder"
begin

section \<open>Strings\<close>

text \<open>
  A Python \<open>str\<close> is modelled as a \<open>string\<close> whose characters are the code points
  0 to 255. The character classes below are those of Python 3 (\<open>str.strip\<close>,
  \<open>str.splitlines\<close>, and \<open>\s\<close>, \<open>\d\<close>, \<open>\w\<close> of the \<open>re\<close> module on \<open>str\<close> patterns)
  restricted to that range, each written as the list of its members. String
  comparison is by code point, lexicographically, which is the order of \<open>Char_ord\<close>
  and \<open>List_Lexorder\<close>.
\<close>

definition space_chars :: string where
  "space_chars =
     [CHR 0x09, CHR 0x0A, CHR 0x0B, CHR 0x0C, CHR 0x0D, CHR 0x1C, CHR 0x1D, CHR 0x1E, CHR 0x1F, CHR 0x20,
      CHR 0x85, CHR 0xA0]"

definition is_space :: "char \<Rightarrow> bool" where
  "is_space c = (c \<in> set space_chars)"

definition is_digit :: "char \<Rightarrow> bool" where
  "is_digit c = (c \<in> set ''0123456789'')"

text \<open>\<open>\w\<close>: the characters with \<open>str.isalnum\<close>, and the underscore.\<close>

definition word_chars :: string where
  "word_chars =
     ''0123456789ABCDEFGHIJKLMNOPQRSTUVWXYZ_abcdefghijklmnopqrstuvwxyz'' @
     [CHR 0xAA, CHR 0xB2, CHR 0xB3, CHR 0xB5, CHR 0xB9, CHR 0xBA, CHR 0xBC, CHR 0xBD, CHR 0xBE, CHR 0xC0,
      CHR 0xC1, CHR 0xC2, CHR 0xC3, CHR 0xC4, CHR 0xC5, CHR 0xC6, CHR 0xC7, CHR 0xC8, CHR 0xC9, CHR 0xCA,
      CHR 0xCB, CHR 0xCC, CHR 0xCD, CHR 0xCE, CHR 0xCF, CHR 0xD0, CHR 0xD1, CHR 0xD2, CHR 0xD3, CHR 0xD4,
      CHR 0xD5, CHR 0xD6, CHR 0xD8, CHR 0xD9, CHR 0xDA, CHR 0xDB, CHR 0xDC, CHR 0xDD, CHR 0xDE, CHR 0xDF,
      CHR 0xE0, CHR 0xE1, CHR 0xE2, CHR 0xE3, CHR 0xE4, CHR 0xE5, CHR 0xE6, CHR 0xE7, CHR 0xE8, CHR 0xE9,
      CHR 0xEA, CHR 0xEB, CHR 0xEC, CHR 0xED, CHR 0xEE, CHR 0xEF, CHR 0xF0, CHR 0xF1, CHR 0xF2, CHR 0xF3,
      CHR 0xF4, CHR 0xF5, CHR 0xF6, CHR 0xF8, CHR 0xF9, CHR 0xFA, CHR 0xFB, CHR 0xFC, CHR 0xFD, CHR 0xFE,
      CHR 0xFF]"

definition is_word :: "char \<Rightarrow> bool" where
  "is_word c = (c \<in> set word_chars)"

definition linebreak_chars :: string where
  "linebreak_chars =
     [CHR 0x0A, CHR 0x0B, CHR 0x0C, CHR 0x0D, CHR 0x1C, CHR 0x1D, CHR 0x1E, CHR 0x85]"

definition is_linebreak :: "char \<Rightarrow> bool" where
  "is_linebreak c = (c \<in> set linebreak_chars)"

definition LF :: char where
  "LF = CHR 0x0A"

definition CR :: char where
  "CR = CHR 0x0D"

definition TAB :: char where
  "TAB = CHR 0x09"

text \<open>\<open>int(c)\<close> of a digit.\<close>

definition digit_val :: "char \<Rightarrow> nat" where
  "digit_val c =
     (case map_of [(CHR ''0'', 0), (CHR ''1'', 1), (CHR ''2'', 2), (CHR ''3'', 3), (CHR ''4'', 4),
                   (CHR ''5'', 5), (CHR ''6'', 6), (CHR ''7'', 7), (CHR ''8'', 8), (CHR ''9'', 9)] c of
        Some n \<Rightarrow> n | None \<Rightarrow> 0)"

definition digit_chr :: "nat \<Rightarrow> char" where
  "digit_chr n = ''0123456789'' ! (n mod 10)"

text \<open>\<open>c.lower()\<close> on the letters A to Z; the other characters are only lowered where
  the source compares against a month name, which is ASCII.\<close>

definition lower_chr :: "char \<Rightarrow> char" where
  "lower_chr c =
     (case map_of (zip ''ABCDEFGHIJKLMNOPQRSTUVWXYZ'' ''abcdefghijklmnopqrstuvwxyz'') c of
        Some l \<Rightarrow> l | None \<Rightarrow> c)"

definition strip :: "string \<Rightarrow> string" where
  "strip s = rev (dropWhile is_space (rev (dropWhile is_space s)))"

text \<open>\<open>a or b\<close> on strings.\<close>

definition str_or :: "string \<Rightarrow> string \<Rightarrow> string" where
  "str_or a b = (if a \<noteq> [] then a else b)"

fun cons_line :: "char \<Rightarrow> string list \<Rightarrow> string list" where
  "cons_line c [] = [[c]]"
| "cons_line c (l # ls) = (c # l) # ls"

fun splitlines :: "string \<Rightarrow> string list" where
  "splitlines [] = []"
| "splitlines [c] = (if is_linebreak c then [[]] else [[c]])"
| "splitlines (c # d # cs) =
     (if c = CR \<and> d = LF then [] # splitlines cs
      else if is_linebreak c then [] # splitlines (d # cs)
      else cons_line c (splitlines (d # cs)))"

fun join :: "string \<Rightarrow> string list \<Rightarrow> string" where
  "join sep [] = []"
| "join sep [l] = l"
| "join sep (l # m # ls) = l @ sep @ join sep (m # ls)"

section \<open>Text normalisation and word count\<close>

text \<open>\<open>s.replace("\r\n", "\n")\<close> and \<open>s.replace("\r", "\n")\<close>.\<close>

fun replace_crlf :: "string \<Rightarrow> string" where
  "replace_crlf (c # d # cs) =
     (if c = CR \<and> d = LF then LF # replace_crlf cs else c # replace_crlf (d # cs))"
| "replace_crlf cs = cs"

definition replace_cr :: "string \<Rightarrow> string" where
  "replace_cr s = map (\<lambda>c. if c = CR then LF else c) s"

definition is_blank :: "char \<Rightarrow> bool" where
  "is_blank c = (c = CHR '' '' \<or> c = TAB)"

text \<open>\<open>re.sub(r"[ \t]+", " ", s)\<close>: every maximal run of blanks becomes one space.\<close>

function collapse_blanks :: "string \<Rightarrow> string" where
  "collapse_blanks [] = []"
| "collapse_blanks (c # cs) =
     (if is_blank c then CHR '' '' # collapse_blanks (dropWhile is_blank cs)
      else c # collapse_blanks cs)"
  by pat_completeness auto

termination collapse_blanks
  by (relation "measure length") (auto simp: less_Suc_eq_le length_dropWhile_le)

text \<open>\<open>re.sub(r"\n{3,}", "\n\n", s)\<close>: a maximal run of three or more newlines becomes
  two; shorter runs stay.\<close>

function squeeze_newlines :: "string \<Rightarrow> string" where
  "squeeze_newlines [] = []"
| "squeeze_newlines (c # cs) =
     (if c = LF
      then replicate (min 2 (Suc (length (takeWhile (\<lambda>x. x = LF) cs)))) LF
             @ squeeze_newlines (dropWhile (\<lambda>x. x = LF) cs)
      else c # squeeze_newlines cs)"
  by pat_completeness auto

termination squeeze_newlines
  by (relation "measure length") (auto simp: less_Suc_eq_le length_dropWhile_le)

definition normalize_whitespace :: "string \<Rightarrow> string" where
  "normalize_whitespace s =
     strip (squeeze_newlines (collapse_blanks (replace_cr (replace_crlf s))))"

text \<open>\<open>len(re.findall(r"\b\w+\b", text))\<close>: the matches are the maximal runs of word
  characters.\<close>

function word_count :: "string \<Rightarrow> nat" where
  "word_count [] = 0"
| "word_count (c # cs) =
     (if is_word c then Suc (word_count (dropWhile is_word cs)) else word_count cs)"
  by pat_completeness auto

termination word_count
  by (relation "measure length") (auto simp: less_Suc_eq_le length_dropWhile_le)

section \<open>Calendar dates\<close>

definition is_leap :: "nat \<Rightarrow> bool" where
  "is_leap y = (y mod 4 = 0 \<and> (y mod 100 \<noteq> 0 \<or> y mod 400 = 0))"

definition days_in_month :: "nat \<Rightarrow> nat \<Rightarrow> nat" where
  "days_in_month y m =
     (if m = 2 then (if is_leap y then 29 else 28)
      else if m = 4 \<or> m = 6 \<or> m = 9 \<or> m = 11 then 30 else 31)"

text \<open>\<open>datetime(y, mo, d)\<close>: \<open>None\<close> is the \<open>ValueError\<close> of a date that does not exist.\<close>

definition datetime :: "nat \<Rightarrow> nat \<Rightarrow> nat \<Rightarrow> (nat \<times> nat \<times> nat) option" where
  "datetime y mo d =
     (if 1 \<le> y \<and> y \<le> 9999 \<and> 1 \<le> mo \<and> mo \<le> 12 \<and> 1 \<le> d \<and> d \<le> days_in_month y mo
      then Some (y, mo, d) else None)"

text \<open>\<open>strftime("%Y-%m-%d")\<close>, for the four-digit years the parsers produce.\<close>

fun strftime :: "nat \<times> nat \<times> nat \<Rightarrow> string" where
  "strftime (y, mo, d) =
     [digit_chr (y div 1000), digit_chr (y div 100), digit_chr (y div 10), digit_chr y]
     @ ''-'' @ [digit_chr (mo div 10), digit_chr mo]
     @ ''-'' @ [digit_chr (d div 10), digit_chr d]"

section \<open>Regular expressions of the date parsers\<close>

text \<open>
  A pattern is a function from the remaining input to the list of its possible matches
  (a captured value and the input left), in the order a backtracking matcher tries
  them: greedy repetitions longest first, alternatives left to right. The match of a
  sequence at a position is the first element of the composed list, and \<open>re.search\<close>
  returns the match at the leftmost position that has one.
\<close>

fun search_from :: "(char option \<Rightarrow> string \<Rightarrow> 'a list) \<Rightarrow> char option \<Rightarrow> string \<Rightarrow> 'a option" where
  "search_from m p [] = (case m p [] of [] \<Rightarrow> None | x # _ \<Rightarrow> Some x)"
| "search_from m p (c # cs) =
     (case m p (c # cs) of [] \<Rightarrow> search_from m (Some c) cs | x # _ \<Rightarrow> Some x)"

definition re_search :: "(char option \<Rightarrow> string \<Rightarrow> 'a list) \<Rightarrow> string \<Rightarrow> 'a option" where
  "re_search m s = search_from m None s"

text \<open>\<open>(\d{1,2})\<close>\<close>

fun digits_1_2 :: "string \<Rightarrow> (nat \<times> string) list" where
  "digits_1_2 [] = []"
| "digits_1_2 [a] = (if is_digit a then [(digit_val a, [])] else [])"
| "digits_1_2 (a # b # r) =
     (if is_digit a \<and> is_digit b then [(10 * digit_val a + digit_val b, r)] else [])
     @ (if is_digit a then [(digit_val a, b # r)] else [])"

text \<open>\<open>(20\d{2})\<close>\<close>

fun year_20xx :: "string \<Rightarrow> (nat \<times> string) list" where
  "year_20xx (a # b # c # d # r) =
     (if a = CHR ''2'' \<and> b = CHR ''0'' \<and> is_digit c \<and> is_digit d
      then [(2000 + 10 * digit_val c + digit_val d, r)] else [])"
| "year_20xx _ = []"

text \<open>\<open>[-_]\<close>\<close>

fun dash :: "string \<Rightarrow> string list" where
  "dash [] = []"
| "dash (c # r) = (if c = CHR ''-'' \<or> c = CHR ''_'' then [r] else [])"

text \<open>\<open>(20\d{2})[-_](\d{1,2})[-_](\d{1,2})\<close>, giving (year, month, day).\<close>

definition iso_date_at :: "char option \<Rightarrow> string \<Rightarrow> (nat \<times> nat \<times> nat) list" where
  "iso_date_at p s =
     [(y, mo, d). (y, r1) \<leftarrow> year_20xx s, r2 \<leftarrow> dash r1, (mo, r3) \<leftarrow> digits_1_2 r2,
                  r4 \<leftarrow> dash r3, (d, r5) \<leftarrow> digits_1_2 r4]"

text \<open>\<open>(\d{1,2})[-_](\d{1,2})[-_](20\d{2})\<close>, giving (month, day, year).\<close>

definition us_date_at :: "char option \<Rightarrow> string \<Rightarrow> (nat \<times> nat \<times> nat) list" where
  "us_date_at p s =
     [(mo, d, y). (mo, r1) \<leftarrow> digits_1_2 s, r2 \<leftarrow> dash r1, (d, r3) \<leftarrow> digits_1_2 r2,
                  r4 \<leftarrow> dash r3, (y, r5) \<leftarrow> year_20xx r4]"

section \<open>File names\<close>

fun split_on :: "char \<Rightarrow> string \<Rightarrow> string list" where
  "split_on x [] = [[]]"
| "split_on x (c # cs) =
     (if c = x then [] # split_on x cs
      else (case split_on x cs of [] \<Rightarrow> [[c]] | l # ls \<Rightarrow> (c # l) # ls))"

text \<open>\<open>Path(name).name\<close>: the last component, empty and \<open>.\<close> components dropped.\<close>

definition path_name :: "string \<Rightarrow> string" where
  "path_name s =
     (case filter (\<lambda>p. p \<noteq> [] \<and> p \<noteq> ''.'') (split_on (CHR ''/'') s) of
        [] \<Rightarrow> [] | ps \<Rightarrow> last ps)"

text \<open>\<open>Path(name).stem\<close>: the name up to its last dot, when that dot is neither the
  first nor the last character.\<close>

definition stem_of_name :: "string \<Rightarrow> string" where
  "stem_of_name n =
     (let k = length (takeWhile (\<lambda>c. c \<noteq> CHR ''.'') (rev n)) in
      if k < length n \<and> 0 < k \<and> Suc k < length n then take (length n - Suc k) n else n)"

definition path_stem :: "string \<Rightarrow> string" where
  "path_stem s = stem_of_name (path_name s)"

section \<open>Date heuristics\<close>

definition parse_date_from_filename :: "string \<Rightarrow> string option" where
  "parse_date_from_filename name =
     (let base = path_stem name;
          first = (case re_search iso_date_at base of
                     None \<Rightarrow> None
                   | Some (y, mo, d) \<Rightarrow> map_option strftime (datetime y mo d))
      in case first of
           Some s \<Rightarrow> Some s
         | None \<Rightarrow>
             (case re_search us_date_at base of
                None \<Rightarrow> None
              | Some (mo, d, y) \<Rightarrow> map_option strftime (datetime y mo d)))"

text \<open>A literal under \<open>re.IGNORECASE\<close>, giving the text it matched. Among the code
  points below 256 a letter a to z matches itself and its capital only.\<close>

fun lit_ci :: "string \<Rightarrow> string \<Rightarrow> (string \<times> string) list" where
  "lit_ci [] s = [([], s)]"
| "lit_ci (w # ws) [] = []"
| "lit_ci (w # ws) (c # cs) =
     (if lower_chr c = lower_chr w then [(c # m, r). (m, r) \<leftarrow> lit_ci ws cs] else [])"

definition month_words :: "string list" where
  "month_words =
     [''Jan'', ''January'', ''Feb'', ''February'', ''Mar'', ''March'', ''Apr'', ''April'',
      ''May'', ''Jun'', ''June'', ''Jul'', ''July'', ''Aug'', ''August'', ''Sep'', ''Sept'',
      ''September'', ''Oct'', ''October'', ''Nov'', ''November'', ''Dec'', ''December'']"

text \<open>\<open>(Jan|January|...|December)\<close>\<close>

definition month_name :: "string \<Rightarrow> (string \<times> string) list" where
  "month_name s = concat (map (\<lambda>w. lit_ci w s) month_words)"

text \<open>\<open>\.?\<close>\<close>

fun opt_dot :: "string \<Rightarrow> string list" where
  "opt_dot [] = [[]]"
| "opt_dot (c # r) = (if c = CHR ''.'' then [r] else []) @ [c # r]"

text \<open>\<open>\s+\<close>\<close>

fun spaces1 :: "string \<Rightarrow> string list" where
  "spaces1 [] = []"
| "spaces1 (c # r) = (if is_space c then spaces1 r @ [r] else [])"

text \<open>\<open>(?:st|nd|rd|th)?\<close>\<close>

definition opt_suffix :: "string \<Rightarrow> string list" where
  "opt_suffix s = map snd (concat (map (\<lambda>w. lit_ci w s) [''st'', ''nd'', ''rd'', ''th''])) @ [s]"

text \<open>\<open>,\<close>\<close>

fun comma :: "string \<Rightarrow> string list" where
  "comma [] = []"
| "comma (c # r) = (if c = CHR '','' then [r] else [])"

text \<open>\<open>\b\<close> between the character before the position (if any) and the rest.\<close>

definition word_boundary :: "char option \<Rightarrow> string \<Rightarrow> bool" where
  "word_boundary p s =
     ((case p of None \<Rightarrow> False | Some c \<Rightarrow> is_word c)
      \<noteq> (case s of [] \<Rightarrow> False | c # _ \<Rightarrow> is_word c))"

text \<open>The pattern of \<open>parse_date_from_text\<close>, giving (month text, day, year). The final
  \<open>\b\<close> follows the last digit of the year, a word character.\<close>

definition text_date_at :: "char option \<Rightarrow> string \<Rightarrow> (string \<times> nat \<times> nat) list" where
  "text_date_at p s =
     (if word_boundary p s
      then [(m, d, y). (m, r1) \<leftarrow> month_name s, r2 \<leftarrow> opt_dot r1, r3 \<leftarrow> spaces1 r2,
                       (d, r4) \<leftarrow> digits_1_2 r3, r5 \<leftarrow> opt_suffix r4, r6 \<leftarrow> comma r5,
                       r7 \<leftarrow> spaces1 r6, (y, r8) \<leftarrow> year_20xx r7,
                       word_boundary (Some (CHR ''0'')) r8]
      else [])"

definition month_map :: "(string \<times> nat) list" where
  "month_map =
     [(''jan'', 1), (''feb'', 2), (''mar'', 3), (''apr'', 4), (''may'', 5), (''jun'', 6),
      (''jul'', 7), (''aug'', 8), (''sep'', 9), (''oct'', 10), (''nov'', 11), (''dec'', 12)]"

text \<open>\<open>"\n".join(text.splitlines()[:20])\<close>\<close>

definition head_lines :: "string \<Rightarrow> string" where
  "head_lines text = join [LF] (take 20 (splitlines text))"

definition parse_date_from_text :: "string \<Rightarrow> string option" where
  "parse_date_from_text text =
     (let head = head_lines text in
      case re_search text_date_at head of
        None \<Rightarrow> None
      | Some (m, day, year) \<Rightarrow>
          (case map_of month_map (take 3 (map lower_chr m)) of
             None \<Rightarrow> None
           | Some mo \<Rightarrow> if mo \<noteq> 0 then map_option strftime (datetime year mo day) else None))"

section \<open>JSON values\<close>

text \<open>
  What \<open>json.loads\<close> returns and \<open>json.dumps\<close> writes. An object is a Python \<open>dict\<close>:
  an association list in insertion order, looked up with \<open>map_of\<close> and stored into with
  \<open>AList.update\<close> (the value replaced in place, a new key appended). A file that the
  program writes and reads back is modelled by the value itself.
\<close>

datatype json =
    JNull
  | JBool bool
  | JInt int
  | JFloat real
  | JStr string
  | JList "json list"
  | JObj "(string \<times> json) list"

fun truthy :: "json \<Rightarrow> bool" where
  "truthy JNull = False"
| "truthy (JBool b) = b"
| "truthy (JInt n) = (n \<noteq> 0)"
| "truthy (JFloat x) = (x \<noteq> 0)"
| "truthy (JStr s) = (s \<noteq> [])"
| "truthy (JList xs) = (xs \<noteq> [])"
| "truthy (JObj kvs) = (kvs \<noteq> [])"

fun type_name :: "json \<Rightarrow> string" where
  "type_name JNull = ''NoneType''"
| "type_name (JBool b) = ''bool''"
| "type_name (JInt n) = ''int''"
| "type_name (JFloat x) = ''float''"
| "type_name (JStr s) = ''str''"
| "type_name (JList xs) = ''list''"
| "type_name (JObj kvs) = ''dict''"

text \<open>The exceptions the program can meet, each with its message (\<open>str(e)\<close>).
  \<open>ServiceError\<close> stands for whatever \<open>openai_infer\<close> raises: a failed request, or a
  reply that \<open>json.loads\<close> rejects.\<close>

datatype exn = AttributeError string | TypeError string | ServiceError string

fun str_exn :: "exn \<Rightarrow> string" where
  "str_exn (AttributeError m) = m"
| "str_exn (TypeError m) = m"
| "str_exn (ServiceError m) = m"

definition no_attribute :: "json \<Rightarrow> string \<Rightarrow> exn" where
  "no_attribute v a =
     AttributeError ([CHR 0x27] @ type_name v @ [CHR 0x27] @ '' object has no attribute ''
                     @ [CHR 0x27] @ a @ [CHR 0x27])"

definition and_then :: "'e + 'a \<Rightarrow> ('a \<Rightarrow> 'e + 'b) \<Rightarrow> 'e + 'b" where
  "and_then m f = (case m of Inl e \<Rightarrow> Inl e | Inr v \<Rightarrow> f v)"

text \<open>\<open>v.get(k, default)\<close> and \<open>v.get(k)\<close>\<close>

fun py_get_default :: "json \<Rightarrow> string \<Rightarrow> json \<Rightarrow> exn + json" where
  "py_get_default (JObj kvs) k dflt = Inr (case map_of kvs k of None \<Rightarrow> dflt | Some v \<Rightarrow> v)"
| "py_get_default v k dflt = Inl (no_attribute v ''get'')"

definition py_get :: "json \<Rightarrow> string \<Rightarrow> exn + json" where
  "py_get v k = py_get_default v k JNull"

text \<open>\<open>(v or "").strip()\<close>\<close>

definition or_empty_strip :: "json \<Rightarrow> exn + string" where
  "or_empty_strip v =
     (if truthy v
      then (case v of JStr s \<Rightarrow> Inr (strip s) | _ \<Rightarrow> Inl (no_attribute v ''strip''))
      else Inr (strip []))"

text \<open>\<open>load_json(path, default)\<close>: the file is \<open>None\<close> when it is absent or does not
  parse.\<close>

definition load_json :: "json option \<Rightarrow> json \<Rightarrow> json" where
  "load_json file dflt = (case file of None \<Rightarrow> dflt | Some v \<Rightarrow> v)"

section \<open>The inference reply\<close>

text \<open>\<open>topics = meta.get("topics") or []\<close>, emptied when it is not a list, then
  \<open>[t.strip() for t in topics if isinstance(t, str) and t.strip()]\<close>.\<close>

fun clean_topic :: "json \<Rightarrow> json list" where
  "clean_topic (JStr t) = (if strip t \<noteq> [] then [JStr (strip t)] else [])"
| "clean_topic _ = []"

definition clean_topics :: "json \<Rightarrow> json list" where
  "clean_topics v =
     (let topics = (if truthy v then v else JList []);
          topics = (case topics of JList ts \<Rightarrow> ts | _ \<Rightarrow> [])
      in concat (map clean_topic topics))"

text \<open>Lines 258 to 263 and 275 of \<open>main\<close>: title, date, summary and topics of the reply.\<close>

definition response_fields :: "string \<Rightarrow> json \<Rightarrow> exn + (string \<times> string \<times> string \<times> json list)" where
  "response_fields stem meta =
     and_then (py_get meta ''title'') (\<lambda>v.
     and_then (or_empty_strip v) (\<lambda>t.
     and_then (py_get meta ''date'') (\<lambda>v.
     and_then (or_empty_strip v) (\<lambda>date_ai.
     and_then (py_get meta ''summary'') (\<lambda>v.
     and_then (or_empty_strip v) (\<lambda>summary.
     and_then (py_get meta ''topics'') (\<lambda>v.
       Inr (str_or t stem, date_ai, summary, clean_topics v))))))))"

section \<open>Documents and the run's environment\<close>

text \<open>
  One entry of \<open>sorted(folder.glob("*.docx"))\<close> with what the outside world answers for
  it: the SHA-256 of its bytes, the output of the two extractors, the outcome of
  \<open>openai_infer\<close> on its text (\<open>Inl\<close> the message of the exception raised), and the
  clock reading taken for \<open>updatedAt\<close>.
\<close>

record document =
  doc_name :: string
  doc_hash :: string
  pandoc_out :: string
  fallback_out :: string
  reply :: "string + json"
  doc_clock :: string

record env =
  resume :: bool
  prune :: bool
  folder_exists :: bool
  api_key :: string
  openai_installed :: bool
  docx_files :: "document list"
  out_json :: "json option"
  state_json :: "json option"
  finish_clock :: string

text \<open>The calls that leave the process, in order.\<close>

datatype call = Extract string | Infer string

record loop_state =
  state :: json
  articles :: "json list"
  errors :: "json list"
  missing_date_rows :: "json list list"
  processed :: nat
  updated :: nat
  calls :: "call list"

section \<open>Fingerprint gate\<close>

text \<open>\<open>state.get("files", {}).get(name, "")\<close>\<close>

definition fingerprint :: "json \<Rightarrow> string \<Rightarrow> exn + json" where
  "fingerprint st n =
     and_then (py_get_default st ''files'' (JObj [])) (\<lambda>files. py_get_default files n (JStr []))"

text \<open>\<open>state.setdefault("files", {})[name] = file_hash\<close>\<close>

definition no_item_assignment :: "json \<Rightarrow> exn" where
  "no_item_assignment v =
     (case v of
        JList _ \<Rightarrow> TypeError ''list indices must be integers or slices, not str''
      | _ \<Rightarrow> TypeError ([CHR 0x27] @ type_name v @ [CHR 0x27]
                          @ '' object does not support item assignment''))"

definition set_fingerprint :: "json \<Rightarrow> string \<Rightarrow> string \<Rightarrow> exn + json" where
  "set_fingerprint st n h =
     (case st of
        JObj kvs \<Rightarrow>
          (case (case map_of kvs ''files'' of None \<Rightarrow> JObj [] | Some v \<Rightarrow> v) of
             JObj files \<Rightarrow>
               Inr (JObj (AList.update ''files'' (JObj (AList.update n (JStr h) files)) kvs))
           | v \<Rightarrow> Inl (no_item_assignment v))
      | v \<Rightarrow> Inl (no_attribute v ''setdefault''))"

section \<open>Building and merging an Article\<close>

text \<open>\<open>a or b\<close> on the results of the two parsers, and \<open>x or ""\<close>.\<close>

definition opt_or :: "string option \<Rightarrow> string option \<Rightarrow> string option" where
  "opt_or a b = (case a of None \<Rightarrow> b | Some s \<Rightarrow> if s \<noteq> [] then a else b)"

definition opt_or_str :: "string option \<Rightarrow> string \<Rightarrow> string" where
  "opt_or_str a b = (case a of None \<Rightarrow> b | Some s \<Rightarrow> if s \<noteq> [] then s else b)"

definition date_guess_of :: "string \<Rightarrow> string \<Rightarrow> string" where
  "date_guess_of n text =
     opt_or_str (opt_or (parse_date_from_filename n) (parse_date_from_text text)) []"

definition final_date_of :: "string \<Rightarrow> string \<Rightarrow> string" where
  "final_date_of date_guess date_ai = str_or (str_or date_guess date_ai) []"

definition date_source_of :: "string \<Rightarrow> string \<Rightarrow> string" where
  "date_source_of date_guess date_ai =
     (if date_guess \<noteq> [] then ''filename/text'' else if date_ai \<noteq> [] then ''ai'' else [])"

text \<open>Lines 257 to 279: the call, the fields of the reply and the Article.\<close>

definition infer_article :: "document \<Rightarrow> string \<Rightarrow> nat \<Rightarrow> string \<Rightarrow> exn + json" where
  "infer_article d text wc date_guess =
     and_then (case reply d of Inl m \<Rightarrow> Inl (ServiceError m) | Inr meta \<Rightarrow> Inr meta) (\<lambda>meta.
     and_then (response_fields (path_stem (doc_name d)) meta) (\<lambda>(title, date_ai, summary, topics).
       Inr (JObj
         [(''sourceFile'', JStr (doc_name d)),
          (''title'', JStr title),
          (''date'', JStr (final_date_of date_guess date_ai)),
          (''dateISO'', JStr (final_date_of date_guess date_ai)),
          (''dateSource'', JStr (date_source_of date_guess date_ai)),
          (''summary'', JStr summary),
          (''topics'', JList topics),
          (''wordCount'', JInt (int wc)),
          (''text'', JStr text),
          (''updatedAt'', JStr (doc_clock d))])))"

text \<open>Lines 281 to 285: the index of the first Article with this \<open>sourceFile\<close>.\<close>

fun find_entry :: "string \<Rightarrow> json list \<Rightarrow> nat \<Rightarrow> exn + nat option" where
  "find_entry n [] i = Inr None"
| "find_entry n (a # as) i =
     and_then (py_get a ''sourceFile'') (\<lambda>sf.
       if sf = JStr n then Inr (Some i) else find_entry n as (Suc i))"

definition upsert :: "json list \<Rightarrow> nat option \<Rightarrow> json \<Rightarrow> json list" where
  "upsert as existing_entry article =
     (case existing_entry of None \<Rightarrow> as @ [article] | Some i \<Rightarrow> as[i := article])"

text \<open>The field of an Article the program built, as a string (empty when absent).\<close>

definition str_field :: "json \<Rightarrow> string \<Rightarrow> string" where
  "str_field a k = (case py_get a k of Inr (JStr s) \<Rightarrow> s | _ \<Rightarrow> [])"

text \<open>The body of the \<open>try\<close>; an exception leaves the state as it was and is recorded
  by the handler.\<close>

definition try_block :: "document \<Rightarrow> string \<Rightarrow> nat \<Rightarrow> string \<Rightarrow> loop_state \<Rightarrow> exn + loop_state" where
  "try_block d text wc date_guess st =
     and_then (infer_article d text wc date_guess) (\<lambda>article.
     and_then (find_entry (doc_name d) (articles st) 0) (\<lambda>existing_entry.
       Inr (st\<lparr>articles := upsert (articles st) existing_entry article,
               updated := Suc (updated st),
               processed := Suc (processed st),
               missing_date_rows :=
                 (if str_field article ''date'' = []
                  then missing_date_rows st
                         @ [[JStr (doc_name d), JStr (str_field article ''title''), JInt (int wc)]]
                  else missing_date_rows st)\<rparr>)))"

definition error_record :: "string \<Rightarrow> exn \<Rightarrow> json" where
  "error_record n e = JObj [(''file'', JStr n), (''error'', JStr (str_exn e))]"

definition extract_text :: "document \<Rightarrow> string" where
  "extract_text d = normalize_whitespace (str_or (pandoc_out d) (fallback_out d))"

text \<open>One iteration of the loop over the folder (lines 231 to 310).\<close>

definition process_document :: "bool \<Rightarrow> loop_state \<Rightarrow> document \<Rightarrow> exn + loop_state" where
  "process_document resuming st d =
     and_then (fingerprint (state st) (doc_name d)) (\<lambda>prev_hash.
       if resuming \<and> prev_hash = JStr (doc_hash d) then Inr st
       else
         let text = extract_text d;
             wc = word_count text;
             st1 = st\<lparr>calls := calls st @ [Extract (doc_name d)]\<rparr>
         in
           if wc = 0
           then and_then (set_fingerprint (state st1) (doc_name d) (doc_hash d))
                  (\<lambda>s. Inr (st1\<lparr>state := s\<rparr>))
           else
             let st2 = st1\<lparr>calls := calls st1 @ [Infer (doc_name d)]\<rparr>;
                 st3 = (case try_block d text wc (date_guess_of (doc_name d) text) st2 of
                          Inr st' \<Rightarrow> st'
                        | Inl e \<Rightarrow> st2\<lparr>errors := errors st2 @ [error_record (doc_name d) e]\<rparr>)
             in and_then (set_fingerprint (state st3) (doc_name d) (doc_hash d))
                  (\<lambda>s. Inr (st3\<lparr>state := s\<rparr>)))"

fun process_all :: "bool \<Rightarrow> document list \<Rightarrow> loop_state \<Rightarrow> exn + loop_state" where
  "process_all resuming [] st = Inr st"
| "process_all resuming (d # ds) st =
     and_then (process_document resuming st d) (process_all resuming ds)"

section \<open>Carried-forward collection and prune\<close>

fun has_prefix :: "string \<Rightarrow> string \<Rightarrow> bool" where
  "has_prefix [] s = True"
| "has_prefix (w # ws) [] = False"
| "has_prefix (w # ws) (c # cs) = (w = c \<and> has_prefix ws cs)"

fun is_substring :: "string \<Rightarrow> string \<Rightarrow> bool" where
  "is_substring w [] = has_prefix w []"
| "is_substring w (c # cs) = (has_prefix w (c # cs) \<or> is_substring w cs)"

text \<open>\<open>"articles" in existing\<close>\<close>

definition has_articles :: "json \<Rightarrow> exn + bool" where
  "has_articles existing =
     (case existing of
        JObj kvs \<Rightarrow> Inr (map_of kvs ''articles'' \<noteq> None)
      | JList xs \<Rightarrow> Inr (JStr ''articles'' \<in> set xs)
      | JStr s \<Rightarrow> Inr (is_substring ''articles'' s)
      | v \<Rightarrow> Inl (TypeError (''argument of type '' @ [CHR 0x27] @ type_name v @ [CHR 0x27]
                               @ '' is not iterable'')))"

definition default_existing :: json where
  "default_existing =
     JObj [(''articles'', JList []), (''generatedAt'', JStr []), (''errors'', JList [])]"

text \<open>Lines 190 to 196: the value bound to \<open>articles\<close>.\<close>

definition existing_articles :: "env \<Rightarrow> exn + json" where
  "existing_articles e =
     and_then
       (if resume e \<and> out_json e \<noteq> None
        then
          let existing = load_json (out_json e) default_existing in
          and_then (has_articles existing) (\<lambda>present.
            if present then Inr existing
            else Inr (JObj [(''articles'', (case existing of JList xs \<Rightarrow> existing | _ \<Rightarrow> JList [])),
                            (''generatedAt'', JStr []), (''errors'', JList [])]))
        else Inr default_existing)
       (\<lambda>existing. py_get_default existing ''articles'' (JList []))"

text \<open>\<open>sf not in existing_names\<close>, membership in a set of strings: the value is hashed
  first.\<close>

definition unhashable :: "json \<Rightarrow> exn" where
  "unhashable v = TypeError (''unhashable type: '' @ [CHR 0x27] @ type_name v @ [CHR 0x27])"

definition in_names :: "json \<Rightarrow> string list \<Rightarrow> exn + bool" where
  "in_names sf names =
     (case sf of
        JStr s \<Rightarrow> Inr (s \<in> set names)
      | JList _ \<Rightarrow> Inl (unhashable sf)
      | JObj _ \<Rightarrow> Inl (unhashable sf)
      | _ \<Rightarrow> Inr False)"

text \<open>Lines 201 to 211.\<close>

fun prune_articles :: "string list \<Rightarrow> json list \<Rightarrow> exn + json list" where
  "prune_articles names [] = Inr []"
| "prune_articles names (a # as) =
     and_then (py_get a ''sourceFile'') (\<lambda>sf.
     and_then (if truthy sf then in_names sf names else Inr True) (\<lambda>present.
     and_then (prune_articles names as) (\<lambda>kept.
       if truthy sf \<and> \<not> present then Inr kept else Inr (a # kept))))"

text \<open>
  How a run can end without writing its files: \<open>sys.exit(1)\<close> on a configuration error,
  an exception nobody catches, or an input this embedding does not follow. The
  embedding follows a carried-forward collection whose \<open>articles\<close> entry is a JSON
  array and whose sort keys (\<open>date\<close> and \<open>title\<close>, each replaced by the empty string
  when falsy) are strings; on any other collection Python's iteration and its \<open><\<close> on
  mixed values decide the outcome, and the embedding answers \<open>Outside_model\<close>.
\<close>

datatype failure = SysExit nat | Uncaught exn | Outside_model

definition lift_exn :: "exn + 'a \<Rightarrow> failure + 'a" where
  "lift_exn m = (case m of Inl x \<Rightarrow> Inl (Uncaught x) | Inr v \<Rightarrow> Inr v)"

text \<open>The collection the loop starts from: loaded, then pruned when asked.\<close>

definition carried_forward :: "env \<Rightarrow> failure + json list" where
  "carried_forward e =
     and_then (lift_exn (existing_articles e)) (\<lambda>v.
       case v of
         JList as \<Rightarrow>
           if prune e then lift_exn (prune_articles (map doc_name (docx_files e)) as)
           else Inr as
       | _ \<Rightarrow> Inl Outside_model)"

section \<open>Dedup and sort\<close>

text \<open>Dictionary keys: Python compares and hashes \<open>True\<close>, \<open>1\<close> and \<open>1.0\<close> alike.\<close>

datatype pykey = KNone | KNum real | KStr string

definition hash_key :: "json \<Rightarrow> exn + pykey" where
  "hash_key v =
     (case v of
        JNull \<Rightarrow> Inr KNone
      | JBool b \<Rightarrow> Inr (KNum (if b then 1 else 0))
      | JInt n \<Rightarrow> Inr (KNum (real_of_int n))
      | JFloat x \<Rightarrow> Inr (KNum x)
      | JStr s \<Rightarrow> Inr (KStr s)
      | _ \<Rightarrow> Inl (unhashable v))"

text \<open>Lines 312 to 316; the accumulator is the dictionary \<open>dedup\<close>.\<close>

fun dedup_articles :: "json list \<Rightarrow> (pykey \<times> json) list \<Rightarrow> exn + (pykey \<times> json) list" where
  "dedup_articles [] dedup = Inr dedup"
| "dedup_articles (a # as) dedup =
     and_then (py_get a ''sourceFile'') (\<lambda>sf.
       if truthy sf
       then and_then (hash_key sf) (\<lambda>k. dedup_articles as (AList.update k a dedup))
       else dedup_articles as dedup)"

text \<open>\<open>(x.get("date") or "", x.get("title") or "")\<close>, when both are strings.\<close>

definition or_empty :: "json \<Rightarrow> json" where
  "or_empty v = (if truthy v then v else JStr [])"

definition sort_key_of :: "json \<Rightarrow> (string \<times> string) option" where
  "sort_key_of x =
     (case (py_get x ''date'', py_get x ''title'') of
        (Inr d, Inr t) \<Rightarrow>
          (case (or_empty d, or_empty t) of
             (JStr ds, JStr ts) \<Rightarrow> Some (ds, ts)
           | _ \<Rightarrow> None)
      | _ \<Rightarrow> None)"

definition key_of :: "json \<Rightarrow> string \<times> string" where
  "key_of x = (case sort_key_of x of Some k \<Rightarrow> k | None \<Rightarrow> ([], []))"

text \<open>\<open>sorted(xs, key=..., reverse=True)\<close>: the list is reversed, sorted by a stable
  ascending sort, and reversed again, so that equal keys keep their order. A list
  of fewer than two elements is returned without a comparison.\<close>

definition sort_articles :: "json list \<Rightarrow> failure + json list" where
  "sort_articles xs =
     (if length xs \<le> 1 then Inr xs
      else if list_all (\<lambda>x. sort_key_of x \<noteq> None) xs
      then Inr (rev (sort_key key_of (rev xs)))
      else Inl Outside_model)"

section \<open>The run\<close>

text \<open>What a run that reaches its end has written, its exit status, the counts of
  its summary and the outside calls it made. The report is the list of rows given
  to the CSV writer.\<close>

record run_result =
  out_json_written :: json
  state_written :: json
  missing_csv_written :: "json list list"
  exit_status :: nat
  summary_processed :: nat
  summary_updated :: nat
  trace :: "call list"

definition initial_state :: "env \<Rightarrow> json list \<Rightarrow> loop_state" where
  "initial_state e as =
     \<lparr>state = load_json (state_json e) (JObj [(''files'', JObj [])]),
      articles = as, errors = [], missing_date_rows = [],
      processed = 0, updated = 0, calls = []\<rparr>"

definition csv_header :: "json list" where
  "csv_header = [JStr ''sourceFile'', JStr ''title'', JStr ''wordCount'']"

definition main :: "env \<Rightarrow> failure + run_result" where
  "main e =
     (if \<not> folder_exists e then Inl (SysExit 1)
      else
        and_then (carried_forward e) (\<lambda>as.
          if api_key e = [] then Inl (SysExit 1)
          else if \<not> openai_installed e then Inl (SysExit 1)
          else
            and_then (lift_exn (process_all (resume e) (docx_files e) (initial_state e as))) (\<lambda>st.
            and_then (lift_exn (dedup_articles (articles st) [])) (\<lambda>dedup.
            and_then (sort_articles (map snd dedup)) (\<lambda>sorted_articles.
              Inr \<lparr>out_json_written =
                     JObj [(''generatedAt'', JStr (finish_clock e)),
                           (''articles'', JList sorted_articles),
                           (''errors'', JList (errors st))],
                   state_written = state st,
                   missing_csv_written = csv_header # missing_date_rows st,
                   exit_status = (if updated st > 0 then 10 else 0),
                   summary_processed = processed st,
                   summary_updated = updated st,
                   trace = calls st\<rparr>)))))"

text \<open>The Articles of a written collection.\<close>

definition articles_of :: "json \<Rightarrow> json list" where
  "articles_of payload = (case py_get payload ''articles'' of Inr (JList as) \<Rightarrow> as | _ \<Rightarrow> [])"

definition errors_of :: "json \<Rightarrow> json list" where
  "errors_of payload = (case py_get payload ''errors'' of Inr (JList es) \<Rightarrow> es | _ \<Rightarrow> [])"

text \<open>The run that follows a finished run over the same folder: incremental mode on,
  the files the first run wrote in place, any clock.\<close>

definition next_run :: "env \<Rightarrow> run_result \<Rightarrow> string \<Rightarrow> env" where
  "next_run e r clock =
     e\<lparr>resume := True, out_json := Some (out_json_written r),
       state_json := Some (state_written r), finish_clock := clock\<rparr>"

section \<open>Notions used in the statements\<close>

text \<open>The date the inference service gave for a document: line 259 applied to its
  reply.\<close>

definition date_ai_of :: "document \<Rightarrow> exn + string" where
  "date_ai_of d =
     and_then (case reply d of Inl m \<Rightarrow> Inl (ServiceError m) | Inr meta \<Rightarrow> Inr meta) (\<lambda>meta.
     and_then (py_get meta ''date'') or_empty_strip)"

text \<open>\<open>a.get("sourceFile")\<close> of an Article (\<open>None\<close> when there is none), and the
  Articles of one source file.\<close>

definition source_file :: "json \<Rightarrow> json" where
  "source_file a = (case py_get a ''sourceFile'' of Inr v \<Rightarrow> v | Inl _ \<Rightarrow> JNull)"

definition keyed :: "string \<Rightarrow> json \<Rightarrow> bool" where
  "keyed n a = (source_file a = JStr n)"

fun is_obj :: "json \<Rightarrow> bool" where
  "is_obj (JObj kvs) = True"
| "is_obj _ = False"

text \<open>A date string the heuristics can produce: a calendar date of the years 2000 to
  2099, formatted.\<close>

definition recognised :: "string \<Rightarrow> bool" where
  "recognised s = (\<exists>y mo d. 2000 \<le> y \<and> y \<le> 2099 \<and> datetime y mo d = Some (y, mo, d) \<and> s = strftime (y, mo, d))"

text \<open>The outcome of lines 257 to 279 for a document: the Article the loop builds from
  its text and reply, or the exception raised on the way.\<close>

definition article_for :: "document \<Rightarrow> exn + json" where
  "article_for d =
     infer_article d (extract_text d) (word_count (extract_text d))
       (date_guess_of (doc_name d) (extract_text d))"

text \<open>The test of line 236: incremental mode, and the stored fingerprint is the
  current one.\<close>

definition unchanged :: "bool \<Rightarrow> json \<Rightarrow> document \<Rightarrow> bool" where
  "unchanged resuming st d =
     (resuming \<and> fingerprint st (doc_name d) = Inr (JStr (doc_hash d)))"

text \<open>The row of the missing-date report for an Article, when its date is empty.\<close>

definition missing_row :: "document \<Rightarrow> json \<Rightarrow> json list list" where
  "missing_row d a =
     (if str_field a ''date'' = []
      then [[JStr (doc_name d), JStr (str_field a ''title''), JInt (int (word_count (extract_text d)))]]
      else [])"

text \<open>An Article whose \<open>sourceFile\<close> names a file of the folder listing.\<close>

definition in_folder :: "string list \<Rightarrow> json \<Rightarrow> bool" where
  "in_folder names a = (\<exists>s \<in> set names. source_file a = JStr s)"

text \<open>The key under which line 316 stores an Article.\<close>

definition dedup_key :: "json \<Rightarrow> pykey" where
  "dedup_key a = (case hash_key (source_file a) of Inr k \<Rightarrow> k | Inl _ \<Rightarrow> KNone)"

text \<open>An Article that line 316 stores: a dictionary with a truthy, hashable
  \<open>sourceFile\<close>.\<close>

definition storable :: "json \<Rightarrow> bool" where
  "storable a =
     (is_obj a \<and> truthy (source_file a) \<and> hash_key (source_file a) = Inr (dedup_key a))"

text \<open>A field of the reply as \<open>meta.get\<close> returns it, and the shapes of a field that
  lines 258 to 260 accept: a string, or anything falsy.\<close>

definition field :: "(string \<times> json) list \<Rightarrow> string \<Rightarrow> json" where
  "field kvs k = (case map_of kvs k of None \<Rightarrow> JNull | Some v \<Rightarrow> v)"

fun str_or_falsy :: "json \<Rightarrow> bool" where
  "str_or_falsy (JStr s) = True"
| "str_or_falsy v = (\<not> truthy v)"

fun text_of :: "json \<Rightarrow> string" where
  "text_of (JStr s) = s"
| "text_of v = []"

fun strings_of :: "json list \<Rightarrow> string list" where
  "strings_of [] = []"
| "strings_of (JStr s # vs) = s # strings_of vs"
| "strings_of (v # vs) = strings_of vs"

fun is_list :: "json \<Rightarrow> bool" where
  "is_list (JList xs) = True"
| "is_list v = False"

text \<open>A string in which the digits \<open>20\<close> are followed by two more digits somewhere.\<close>

fun has_20xx :: "string \<Rightarrow> bool" where
  "has_20xx [] = False"
| "has_20xx (c # cs) = (year_20xx (c # cs) \<noteq> [] \<or> has_20xx cs)"

text \<open>A fingerprint state on which the lookups of line 233 do not raise: a dictionary
  whose \<open>files\<close> entry, when present, is a dictionary.\<close>

definition state_ok :: "json \<Rightarrow> bool" where
  "state_ok s =
     (case s of
        JObj kvs \<Rightarrow>
          (case map_of kvs ''files'' of None \<Rightarrow> True | Some (JObj files) \<Rightarrow> True | Some _ \<Rightarrow> False)
      | _ \<Rightarrow> False)"

text \<open>The loop state after the handler of lines 303 to 309 has recorded an exception
  for a document: both calls made, the error appended, the fingerprint stored.\<close>

definition after_failure :: "loop_state \<Rightarrow> document \<Rightarrow> exn \<Rightarrow> json \<Rightarrow> loop_state" where
  "after_failure st d x s =
     st\<lparr>calls := calls st @ [Extract (doc_name d), Infer (doc_name d)],
        errors := errors st @ [error_record (doc_name d) x],
        state := s\<rparr>"

text \<open>A carried-forward Article that lines 312 to 322 accept: a dictionary whose
  \<open>sourceFile\<close> is falsy or hashable and whose sort keys are strings.\<close>

definition article_ok :: "json \<Rightarrow> bool" where
  "article_ok a =
     (is_obj a \<and> (\<not> truthy (source_file a) \<or> storable a) \<and> sort_key_of a \<noteq> None)"

text \<open>The parts of a date written with digits and two separators, whose four-digit
  year does not begin with \<open>20\<close>: a year outside 2000 to 2099.\<close>

definition date_outside_20xx :: "string \<Rightarrow> string \<Rightarrow> string \<Rightarrow> char \<Rightarrow> char \<Rightarrow> bool" where
  "date_outside_20xx y m d s1 s2 =
     (length y = 4 \<and> take 2 y \<noteq> ''20'' \<and> list_all is_digit (y @ m @ d)
      \<and> (length m = 1 \<or> length m = 2) \<and> (length d = 1 \<or> length d = 2)
      \<and> (s1 = CHR ''-'' \<or> s1 = CHR ''_'') \<and> (s2 = CHR ''-'' \<or> s2 = CHR ''_''))"

section \<open>Concrete inputs\<close>

definition doc_w8 :: document where
  "doc_w8 = \<lparr>doc_name = ''col_2024-03-01.docx'', doc_hash = ''h'', pandoc_out = ''Jan 5, 2021'',
     fallback_out = [], reply = Inr (JObj [(''title'', JStr ''B''), (''date'', JStr ''2020-01-01'')]),
     doc_clock = ''t''\<rparr>"

text \<open>A folder of three documents (one that is processed and has no date, one whose
  inference call fails, one without content) and the files of an earlier run: a
  collection holding a stale Article of the second document and an Article of a file
  that is gone, with their state.\<close>

definition w_ok :: document where
  "w_ok = \<lparr>doc_name = ''a.docx'', doc_hash = ''h1'', pandoc_out = ''Hi'', fallback_out = [],
            reply = Inr (JObj [(''title'', JStr ''T'')]), doc_clock = ''t1''\<rparr>"

definition w_bad :: document where
  "w_bad = \<lparr>doc_name = ''b.docx'', doc_hash = ''h2'', pandoc_out = ''Yo'', fallback_out = [],
             reply = Inl ''boom'', doc_clock = ''t2''\<rparr>"

definition w_empty :: document where
  "w_empty = \<lparr>doc_name = ''c.docx'', doc_hash = ''h3'', pandoc_out = [], fallback_out = [],
               reply = Inr JNull, doc_clock = ''t3''\<rparr>"

definition w_stale :: json where
  "w_stale = JObj [(''sourceFile'', JStr ''b.docx''), (''title'', JStr ''Old''),
                   (''date'', JStr ''2020-01-01'')]"

definition w_gone :: json where
  "w_gone = JObj [(''sourceFile'', JStr ''gone.docx''), (''title'', JStr ''Gone''),
                  (''date'', JStr ''2021-01-01'')]"

definition w_env :: env where
  "w_env = \<lparr>resume = True, prune = True, folder_exists = True, api_key = ''k'',
             openai_installed = True, docx_files = [w_ok, w_bad, w_empty],
             out_json = Some (JObj [(''generatedAt'', JStr ''t0''),
                                    (''articles'', JList [w_gone, w_stale]),
                                    (''errors'', JList [])]),
             state_json = Some (JObj [(''files'', JObj [(''b.docx'', JStr ''h0'')])]),
             finish_clock = ''t9''\<rparr>"

definition w_article :: json where
  "w_article = JObj
     [(''sourceFile'', JStr ''a.docx''), (''title'', JStr ''T''),
      (''date'', JStr []), (''dateISO'', JStr []),
      (''dateSource'', JStr []), (''summary'', JStr []),
      (''topics'', JList []), (''wordCount'', JInt 1),
      (''text'', JStr ''Hi''), (''updatedAt'', JStr ''t1'')]"

definition w_state :: json where
  "w_state = JObj [(''files'', JObj [(''b.docx'', JStr ''h2''), (''a.docx'', JStr ''h1''),
                                     (''c.docx'', JStr ''h3'')])]"

definition w_result :: run_result where
  "w_result =
     \<lparr>out_json_written =
        JObj [(''generatedAt'', JStr ''t9''),
              (''articles'', JList [w_stale, w_article]),
              (''errors'', JList [JObj [(''file'', JStr ''b.docx''), (''error'', JStr ''boom'')]])],
      state_written = w_state,
      missing_csv_written =
        [[JStr ''sourceFile'', JStr ''title'', JStr ''wordCount''],
         [JStr ''a.docx'', JStr ''T'', JInt 1]],
      exit_status = 10, summary_processed = 1, summary_updated = 1,
      trace = [Extract ''a.docx'', Infer ''a.docx'', Extract ''b.docx'', Infer ''b.docx'',
               Extract ''c.docx'']\<rparr>"

definition w_second :: run_result where
  "w_second =
     \<lparr>out_json_written =
        JObj [(''generatedAt'', JStr ''t9''),
              (''articles'', JList [w_stale, w_article]),
              (''errors'', JList [])],
      state_written = w_state,
      missing_csv_written = [[JStr ''sourceFile'', JStr ''title'', JStr ''wordCount'']],
      exit_status = 0, summary_processed = 0, summary_updated = 0, trace = []\<rparr>"

text \<open>A collection with a key collision, as an edited file could hold.\<close>

definition w_dup :: json where
  "w_dup = JObj [(''sourceFile'', JStr ''b.docx''), (''title'', JStr ''Dup'')]"




text \<open>A reply whose title is a number.\<close>

definition c4_doc :: document where
  "c4_doc = \<lparr>doc_name = ''n.docx'', doc_hash = ''h'', pandoc_out = ''Hi'', fallback_out = [],
              reply = Inr (JObj [(''title'', JInt 42), (''summary'', JStr ''s'')]),
              doc_clock = ''t1''\<rparr>"

definition c4_env :: env where
  "c4_env = \<lparr>resume = False, prune = False, folder_exists = True, api_key = ''k'',
              openai_installed = True, docx_files = [c4_doc],
              out_json = None, state_json = None, finish_clock = ''t9''\<rparr>"

definition c4_message :: string where
  "c4_message = [CHR 0x27] @ ''int'' @ [CHR 0x27] @ '' object has no attribute ''
                @ [CHR 0x27] @ ''strip'' @ [CHR 0x27]"

definition c4_result :: run_result where
  "c4_result =
     \<lparr>out_json_written =
        JObj [(''generatedAt'', JStr ''t9''),
              (''articles'', JList []),
              (''errors'', JList [JObj [(''file'', JStr ''n.docx''), (''error'', JStr c4_message)]])],
      state_written = JObj [(''files'', JObj [(''n.docx'', JStr ''h'')])],
      missing_csv_written = [[JStr ''sourceFile'', JStr ''title'', JStr ''wordCount'']],
      exit_status = 0, summary_processed = 0, summary_updated = 0,
      trace = [Extract ''n.docx'', Infer ''n.docx'']\<rparr>"

text \<open>A reply with every shape the fallbacks cover.\<close>

definition c4_meta :: "(string \<times> json) list" where
  "c4_meta = [(''title'', JStr ''  ''), (''date'', JNull),
              (''topics'', JList [JStr '' x '', JInt 3, JStr ''  '', JStr ''y''])]"

section \<open>Date heuristics\<close>



lemma search_from_Some: "search_from m p s = Some x \<Longrightarrow> \<exists>q t. x \<in> set (m q t)"
proof (induction s arbitrary: p)
  case Nil
  then show ?case by (auto split: list.splits) (metis list.set_intros(1))
next
  case (Cons c cs)
  show ?case
  proof (cases "m p (c # cs)")
    case Nil
    with Cons show ?thesis by simp
  next
    case (Cons y ys)
    with Cons.prems have "x = y" by simp
    with Cons show ?thesis by (metis list.set_intros(1))
  qed
qed

lemma year_20xx_range: "(y, r) \<in> set (year_20xx s) \<Longrightarrow> 2000 \<le> y \<and> y \<le> 2099"
  by (cases s rule: year_20xx.cases) (auto simp: is_digit_def digit_val_def split: if_splits)

lemma iso_date_at_range: "(y, mo, d) \<in> set (iso_date_at p s) \<Longrightarrow> 2000 \<le> y \<and> y \<le> 2099"
  unfolding iso_date_at_def by (auto dest: year_20xx_range)

lemma us_date_at_range: "(mo, d, y) \<in> set (us_date_at p s) \<Longrightarrow> 2000 \<le> y \<and> y \<le> 2099"
  unfolding us_date_at_def by (auto dest: year_20xx_range)

lemma text_date_at_range: "(m, d, y) \<in> set (text_date_at p s) \<Longrightarrow> 2000 \<le> y \<and> y \<le> 2099"
  unfolding text_date_at_def by (auto dest: year_20xx_range split: if_splits)

lemma datetime_Some: "datetime y mo d = Some t \<Longrightarrow> t = (y, mo, d)"
  by (auto simp: datetime_def split: if_splits)

lemma parse_date_from_filename_recognised:
  assumes "parse_date_from_filename n = Some s"
  shows "recognised s"
proof -
  let ?base = "path_stem n"
  from assms consider
    (iso) y mo d where "re_search iso_date_at ?base = Some (y, mo, d)" "map_option strftime (datetime y mo d) = Some s"
  | (us) y mo d where "re_search us_date_at ?base = Some (mo, d, y)" "map_option strftime (datetime y mo d) = Some s"
    by (auto simp: parse_date_from_filename_def Let_def split: option.splits prod.splits)
  then show ?thesis
  proof cases
    case iso
    from iso(1) obtain q t where "(y, mo, d) \<in> set (iso_date_at q t)"
      unfolding re_search_def by (blast dest: search_from_Some)
    then have "2000 \<le> y \<and> y \<le> 2099" by (rule iso_date_at_range)
    with iso(2) show ?thesis unfolding recognised_def by (auto dest: datetime_Some)
  next
    case us
    from us(1) obtain q t where "(mo, d, y) \<in> set (us_date_at q t)"
      unfolding re_search_def by (blast dest: search_from_Some)
    then have "2000 \<le> y \<and> y \<le> 2099" by (rule us_date_at_range)
    with us(2) show ?thesis unfolding recognised_def by (auto dest: datetime_Some)
  qed
qed

lemma parse_date_from_text_recognised:
  assumes "parse_date_from_text text = Some s"
  shows "recognised s"
proof -
  let ?head = "head_lines text"
  from assms obtain m d y mo where
    s: "re_search text_date_at ?head = Some (m, d, y)" and
    dt: "map_option strftime (datetime y mo d) = Some s"
    by (auto simp: parse_date_from_text_def Let_def split: option.splits prod.splits if_splits)
  from s obtain q t where "(m, d, y) \<in> set (text_date_at q t)"
    unfolding re_search_def by (blast dest: search_from_Some)
  then have "2000 \<le> y \<and> y \<le> 2099" by (rule text_date_at_range)
  with dt show ?thesis unfolding recognised_def by (auto dest: datetime_Some)
qed

lemma digit_chr_2: "digit_chr 2 = CHR ''2''" by (simp add: digit_chr_def)
lemma digit_chr_20: "digit_chr 20 = CHR ''0''" by (simp add: digit_chr_def)

lemma strftime_20: "2000 \<le> y \<Longrightarrow> y \<le> 2099 \<Longrightarrow> take 2 (strftime (y, mo, d)) = ''20''"
proof -
  assume "2000 \<le> y" "y \<le> 2099"
  then have "y div 1000 = 2" "y div 100 = 20" by auto
  then show ?thesis by (simp add: digit_chr_2 digit_chr_20)
qed

lemma strftime_nonempty: "strftime t \<noteq> []"
  by (cases t) simp


lemma parse_filename_nonempty: "parse_date_from_filename n = Some s \<Longrightarrow> s \<noteq> []"
  using parse_date_from_filename_recognised[of n s] strftime_nonempty by (auto simp: recognised_def)

lemma parse_text_nonempty: "parse_date_from_text t = Some s \<Longrightarrow> s \<noteq> []"
  using parse_date_from_text_recognised[of t s] strftime_nonempty by (auto simp: recognised_def)

lemma date_guess_of_cases:
  "date_guess_of n text =
     (case parse_date_from_filename n of Some s \<Rightarrow> s
      | None \<Rightarrow> (case parse_date_from_text text of Some s \<Rightarrow> s | None \<Rightarrow> []))"
  by (auto simp: date_guess_of_def opt_or_def opt_or_str_def
      dest: parse_filename_nonempty parse_text_nonempty split: option.splits)

lemma infer_article_fields:
  assumes "infer_article d text wc g = Inr a"
  shows "\<exists>date_ai. date_ai_of d = Inr date_ai
           \<and> str_field a ''date'' = final_date_of g date_ai
           \<and> str_field a ''dateSource'' = date_source_of g date_ai
           \<and> str_field a ''sourceFile'' = doc_name d"
  using assms
  by (auto simp: infer_article_def date_ai_of_def response_fields_def and_then_def str_field_def
      py_get_def split: sum.splits prod.splits)

text \<open>
  C8: in the Article built for a document, a date parsed from the file name wins;
  failing that, a long-form date found in the text; both carry the provenance
  \<open>filename/text\<close>. Failing both, the date is the one the inference service gave,
  with provenance \<open>ai\<close>. The date is empty exactly when all three yield nothing,
  and then the provenance marker is empty.
\<close>

theorem date_precedence:
  assumes "infer_article d text wc (date_guess_of (doc_name d) text) = Inr a"
  shows "\<exists>date_ai. date_ai_of d = Inr date_ai \<and>
           (case parse_date_from_filename (doc_name d) of
              Some s \<Rightarrow> str_field a ''date'' = s \<and> str_field a ''dateSource'' = ''filename/text''
            | None \<Rightarrow>
               (case parse_date_from_text text of
                  Some s \<Rightarrow> str_field a ''date'' = s \<and> str_field a ''dateSource'' = ''filename/text''
                | None \<Rightarrow> str_field a ''date'' = date_ai
                          \<and> str_field a ''dateSource'' = (if date_ai = [] then [] else ''ai'')))
           \<and> (str_field a ''date'' = [] \<longleftrightarrow>
                parse_date_from_filename (doc_name d) = None \<and> parse_date_from_text text = None
                \<and> date_ai = [])
           \<and> (str_field a ''date'' = [] \<longrightarrow> str_field a ''dateSource'' = [])"
proof -
  from infer_article_fields[OF assms] obtain date_ai where
    ai: "date_ai_of d = Inr date_ai" and
    dt: "str_field a ''date'' = final_date_of (date_guess_of (doc_name d) text) date_ai" and
    src: "str_field a ''dateSource'' = date_source_of (date_guess_of (doc_name d) text) date_ai"
    by blast
  show ?thesis
  proof (intro exI[of _ date_ai] conjI ai)
    show "case parse_date_from_filename (doc_name d) of
            Some s \<Rightarrow> str_field a ''date'' = s \<and> str_field a ''dateSource'' = ''filename/text''
          | None \<Rightarrow>
             (case parse_date_from_text text of
                Some s \<Rightarrow> str_field a ''date'' = s \<and> str_field a ''dateSource'' = ''filename/text''
              | None \<Rightarrow> str_field a ''date'' = date_ai
                        \<and> str_field a ''dateSource'' = (if date_ai = [] then [] else ''ai''))"
      by (auto simp: dt src date_guess_of_cases final_date_of_def date_source_of_def str_or_def
          dest: parse_filename_nonempty parse_text_nonempty split: option.splits)
    show "str_field a ''date'' = [] \<longleftrightarrow>
            parse_date_from_filename (doc_name d) = None \<and> parse_date_from_text text = None
            \<and> date_ai = []"
      by (auto simp: dt date_guess_of_cases final_date_of_def str_or_def
          dest: parse_filename_nonempty parse_text_nonempty split: option.splits)
    show "str_field a ''date'' = [] \<longrightarrow> str_field a ''dateSource'' = []"
      by (auto simp: dt src date_guess_of_cases final_date_of_def date_source_of_def str_or_def
          dest: parse_filename_nonempty parse_text_nonempty split: option.splits)
  qed
qed

theorem date_precedence_witness:
  "infer_article doc_w8 ''Jan 5, 2021'' 3 (date_guess_of (doc_name doc_w8) ''Jan 5, 2021'')
     = Inr (JObj
         [(''sourceFile'', JStr ''col_2024-03-01.docx''),
          (''title'', JStr ''B''),
          (''date'', JStr ''2024-03-01''),
          (''dateISO'', JStr ''2024-03-01''),
          (''dateSource'', JStr ''filename/text''),
          (''summary'', JStr []),
          (''topics'', JList []),
          (''wordCount'', JInt 3),
          (''text'', JStr ''Jan 5, 2021''),
          (''updatedAt'', JStr ''t'')])
   \<and> parse_date_from_filename (doc_name doc_w8) = Some ''2024-03-01''
   \<and> parse_date_from_text ''Jan 5, 2021'' = Some ''2021-01-05''
   \<and> date_ai_of doc_w8 = Inr ''2020-01-01''
   \<and> str_field (JObj
         [(''sourceFile'', JStr ''col_2024-03-01.docx''),
          (''title'', JStr ''B''),
          (''date'', JStr ''2024-03-01''),
          (''dateISO'', JStr ''2024-03-01''),
          (''dateSource'', JStr ''filename/text''),
          (''summary'', JStr []),
          (''topics'', JList []),
          (''wordCount'', JInt 3),
          (''text'', JStr ''Jan 5, 2021''),
          (''updatedAt'', JStr ''t'')]) ''dateSource'' = ''filename/text''"
proof -
  have f: "parse_date_from_filename (doc_name doc_w8) = Some ''2024-03-01''" by code_simp
  have t: "parse_date_from_text ''Jan 5, 2021'' = Some ''2021-01-05''" by code_simp
  have g: "date_guess_of (doc_name doc_w8) ''Jan 5, 2021'' = ''2024-03-01''"
    using f by (simp add: date_guess_of_cases)
  have "infer_article doc_w8 ''Jan 5, 2021'' 3 ''2024-03-01''
     = Inr (JObj
         [(''sourceFile'', JStr ''col_2024-03-01.docx''),
          (''title'', JStr ''B''),
          (''date'', JStr ''2024-03-01''),
          (''dateISO'', JStr ''2024-03-01''),
          (''dateSource'', JStr ''filename/text''),
          (''summary'', JStr []),
          (''topics'', JList []),
          (''wordCount'', JInt 3),
          (''text'', JStr ''Jan 5, 2021''),
          (''updatedAt'', JStr ''t'')])"
    by code_simp
  with g have h: "infer_article doc_w8 ''Jan 5, 2021'' 3
       (date_guess_of (doc_name doc_w8) ''Jan 5, 2021'')
     = Inr (JObj
         [(''sourceFile'', JStr ''col_2024-03-01.docx''),
          (''title'', JStr ''B''),
          (''date'', JStr ''2024-03-01''),
          (''dateISO'', JStr ''2024-03-01''),
          (''dateSource'', JStr ''filename/text''),
          (''summary'', JStr []),
          (''topics'', JList []),
          (''wordCount'', JInt 3),
          (''text'', JStr ''Jan 5, 2021''),
          (''updatedAt'', JStr ''t'')])"
    by simp
  have ai: "date_ai_of doc_w8 = Inr ''2020-01-01''" by code_simp
  from date_precedence[OF h] f h t ai show ?thesis by auto
qed

subsection \<open>No date without the digits of a year 20xx\<close>

lemma has_20xx_append: "has_20xx r \<Longrightarrow> has_20xx (pre @ r)"
  by (induction pre) auto

lemma year_20xx_has: "x \<in> set (year_20xx s) \<Longrightarrow> has_20xx s"
  by (cases s) auto

lemma search_from_suffix:
  "search_from m p s = Some x \<Longrightarrow> \<exists>q pre t. s = pre @ t \<and> x \<in> set (m q t)"
proof (induction s arbitrary: p)
  case Nil
  then have "x \<in> set (m p [])" by (auto split: list.splits)
  then show ?case by blast
next
  case (Cons c cs)
  show ?case
  proof (cases "m p (c # cs)")
    case Nil
    with Cons.prems have "search_from m (Some c) cs = Some x" by simp
    from Cons.IH[OF this] obtain q pre t where "cs = pre @ t" "x \<in> set (m q t)" by blast
    then have "c # cs = (c # pre) @ t" "x \<in> set (m q t)" by simp_all
    then show ?thesis by blast
  next
    case (Cons y ys)
    with Cons.prems have "x \<in> set (m p (c # cs))" by simp
    then have "c # cs = [] @ (c # cs)" "x \<in> set (m p (c # cs))" by simp_all
    then show ?thesis by blast
  qed
qed

lemma digits_1_2_rest: "(v, r) \<in> set (digits_1_2 s) \<Longrightarrow> has_20xx r \<Longrightarrow> has_20xx s"
proof (induction s rule: digits_1_2.induct)
  case (3 a b r')
  from "3.prems"(1) have "r = r' \<or> r = b # r'" by (auto split: if_splits)
  then show ?case
  proof
    assume "r = r'"
    with "3.prems"(2) has_20xx_append[of r' "[a, b]"] show ?thesis by simp
  next
    assume "r = b # r'"
    with "3.prems"(2) has_20xx_append[of "b # r'" "[a]"] show ?thesis by simp
  qed
qed (auto split: if_splits)

lemma dash_rest: "r \<in> set (dash s) \<Longrightarrow> has_20xx r \<Longrightarrow> has_20xx s"
  by (cases s) (auto split: if_splits)

lemma comma_rest: "r \<in> set (comma s) \<Longrightarrow> has_20xx r \<Longrightarrow> has_20xx s"
  by (cases s) (auto split: if_splits)

lemma opt_dot_rest: "r \<in> set (opt_dot s) \<Longrightarrow> has_20xx r \<Longrightarrow> has_20xx s"
  by (cases s) (auto split: if_splits)

lemma spaces1_rest: "r \<in> set (spaces1 s) \<Longrightarrow> has_20xx r \<Longrightarrow> has_20xx s"
  by (induction s) (auto split: if_splits)

lemma lit_ci_rest: "(m, r) \<in> set (lit_ci w s) \<Longrightarrow> has_20xx r \<Longrightarrow> has_20xx s"
  by (induction w s arbitrary: m rule: lit_ci.induct) (auto split: if_splits)

lemma month_name_rest: "(m, r) \<in> set (month_name s) \<Longrightarrow> has_20xx r \<Longrightarrow> has_20xx s"
  by (auto simp: month_name_def dest: lit_ci_rest)

lemma opt_suffix_rest: "r \<in> set (opt_suffix s) \<Longrightarrow> has_20xx r \<Longrightarrow> has_20xx s"
  by (auto simp: opt_suffix_def dest: lit_ci_rest)

lemma iso_date_at_has: "x \<in> set (iso_date_at q t) \<Longrightarrow> has_20xx t"
  by (auto simp: iso_date_at_def dest: year_20xx_has)

lemma us_date_at_has:
  assumes "x \<in> set (us_date_at q t)"
  shows "has_20xx t"
proof -
  from assms obtain mo r1 r2 d r3 r4 y r5 where
    "(mo, r1) \<in> set (digits_1_2 t)" "r2 \<in> set (dash r1)" "(d, r3) \<in> set (digits_1_2 r2)"
    "r4 \<in> set (dash r3)" "(y, r5) \<in> set (year_20xx r4)"
    by (auto simp: us_date_at_def)
  then show ?thesis
    by (blast intro: digits_1_2_rest dash_rest year_20xx_has)
qed

lemma text_date_at_parts:
  assumes "x \<in> set (text_date_at q t)"
  shows "\<exists>m r1 r2 r3 d r4 r5 r6 r7 y r8.
    (m, r1) \<in> set (month_name t) \<and> r2 \<in> set (opt_dot r1) \<and> r3 \<in> set (spaces1 r2) \<and>
    (d, r4) \<in> set (digits_1_2 r3) \<and> r5 \<in> set (opt_suffix r4) \<and> r6 \<in> set (comma r5) \<and>
    r7 \<in> set (spaces1 r6) \<and> (y, r8) \<in> set (year_20xx r7)"
proof -
  from assms have "x \<in> set
      [(m, d, y). (m, r1) \<leftarrow> month_name t, r2 \<leftarrow> opt_dot r1, r3 \<leftarrow> spaces1 r2,
                       (d, r4) \<leftarrow> digits_1_2 r3, r5 \<leftarrow> opt_suffix r4, r6 \<leftarrow> comma r5,
                       r7 \<leftarrow> spaces1 r6, (y, r8) \<leftarrow> year_20xx r7,
                       word_boundary (Some (CHR ''0'')) r8]"
    by (simp add: text_date_at_def split: if_splits)
  then show ?thesis
    apply (simp only: set_concat set_map)
    apply clarify
    apply (simp only: split_paired_all prod.case set_concat set_map)
    apply (fastforce split: if_splits)
    done
qed

lemma text_date_at_has:
  assumes "x \<in> set (text_date_at q t)"
  shows "has_20xx t"
proof -
  from text_date_at_parts[OF assms] obtain m r1 r2 r3 d r4 r5 r6 r7 y r8 where
    1: "(m, r1) \<in> set (month_name t)" and 2: "r2 \<in> set (opt_dot r1)"
    and 3: "r3 \<in> set (spaces1 r2)" and 4: "(d, r4) \<in> set (digits_1_2 r3)"
    and 5: "r5 \<in> set (opt_suffix r4)" and 6: "r6 \<in> set (comma r5)"
    and 7: "r7 \<in> set (spaces1 r6)" and 8: "(y, r8) \<in> set (year_20xx r7)"
    by blast
  from 8 have "has_20xx r7" by (rule year_20xx_has)
  with 7 have "has_20xx r6" by (rule spaces1_rest)
  with 6 have "has_20xx r5" by (rule comma_rest)
  with 5 have "has_20xx r4" by (rule opt_suffix_rest)
  with 4 have "has_20xx r3" by (rule digits_1_2_rest)
  with 3 have "has_20xx r2" by (rule spaces1_rest)
  with 2 have "has_20xx r1" by (rule opt_dot_rest)
  with 1 show ?thesis by (rule month_name_rest)
qed

lemma re_search_has:
  assumes "re_search m s = Some x" and "\<And>q t y. y \<in> set (m q t) \<Longrightarrow> has_20xx t"
  shows "has_20xx s"
proof -
  from assms(1) obtain q pre t where "s = pre @ t" "x \<in> set (m q t)"
    unfolding re_search_def by (blast dest: search_from_suffix)
  with assms(2) show ?thesis by (auto intro: has_20xx_append)
qed

lemma parse_date_from_filename_needs_20xx:
  assumes "\<not> has_20xx (path_stem n)"
  shows "parse_date_from_filename n = None"
proof -
  have "re_search iso_date_at (path_stem n) = None"
    using assms re_search_has[of iso_date_at "path_stem n"] iso_date_at_has
    by (cases "re_search iso_date_at (path_stem n)") auto
  moreover have "re_search us_date_at (path_stem n) = None"
    using assms re_search_has[of us_date_at "path_stem n"] us_date_at_has
    by (cases "re_search us_date_at (path_stem n)") auto
  ultimately show ?thesis by (simp add: parse_date_from_filename_def)
qed

lemma parse_date_from_text_needs_20xx:
  assumes "\<not> has_20xx (head_lines body)"
  shows "parse_date_from_text body = None"
proof -
  have "re_search text_date_at (head_lines body) = None"
    using assms re_search_has[of text_date_at "head_lines body"] text_date_at_has
    by (cases "re_search text_date_at (head_lines body)") auto
  then show ?thesis by (simp add: parse_date_from_text_def)
qed

lemma len4: "length y = 4 \<Longrightarrow> \<exists>a b c e. y = [a, b, c, e]"
  by (auto simp: length_Suc_conv numeral_eq_Suc)

lemma len1: "length m = 1 \<Longrightarrow> \<exists>a. m = [a]"
  by (auto simp: length_Suc_conv)

lemma len2: "length m = 2 \<Longrightarrow> \<exists>a b. m = [a, b]"
  by (auto simp: length_Suc_conv numeral_eq_Suc)

lemma dash_not_digit: "\<not> is_digit (CHR ''-'')" "\<not> is_digit (CHR ''_'')"
  by (simp_all add: is_digit_def)

lemma iso_chars:
  assumes "\<not> (a = CHR ''2'' \<and> b = CHR ''0'')"
    and "s1 = CHR ''-'' \<or> s1 = CHR ''_''" and "s2 = CHR ''-'' \<or> s2 = CHR ''_''"
  shows "\<not> has_20xx ([a, b, c, e] @ [s1] @ [m1] @ [s2] @ [d1])"
    and "\<not> has_20xx ([a, b, c, e] @ [s1] @ [m1] @ [s2] @ [d1, d2])"
    and "\<not> has_20xx ([a, b, c, e] @ [s1] @ [m1, m2] @ [s2] @ [d1])"
    and "\<not> has_20xx ([a, b, c, e] @ [s1] @ [m1, m2] @ [s2] @ [d1, d2])"
  using assms
  apply -
     apply (elim disjE; hypsubst;
      simp only: append.simps has_20xx.simps year_20xx.simps;
      simp only: dash_not_digit simp_thms if_False if_True char.inject list.simps split: if_splits;
      blast)+
  done

lemma us_chars:
  assumes "\<not> (a = CHR ''2'' \<and> b = CHR ''0'')"
    and "s1 = CHR ''-'' \<or> s1 = CHR ''_''" and "s2 = CHR ''-'' \<or> s2 = CHR ''_''"
  shows "\<not> has_20xx ([m1] @ [s1] @ [d1] @ [s2] @ [a, b, c, e])"
    and "\<not> has_20xx ([m1] @ [s1] @ [d1, d2] @ [s2] @ [a, b, c, e])"
    and "\<not> has_20xx ([m1, m2] @ [s1] @ [d1] @ [s2] @ [a, b, c, e])"
    and "\<not> has_20xx ([m1, m2] @ [s1] @ [d1, d2] @ [s2] @ [a, b, c, e])"
  using assms
  apply -
     apply (elim disjE; hypsubst;
      simp only: append.simps has_20xx.simps year_20xx.simps;
      simp only: dash_not_digit simp_thms if_False if_True char.inject list.simps split: if_splits;
      blast)+
  done

lemma date_outside_20xx_no_20xx:
  assumes "date_outside_20xx y m d s1 s2"
  shows "\<not> has_20xx (y @ [s1] @ m @ [s2] @ d)" and "\<not> has_20xx (m @ [s1] @ d @ [s2] @ y)"
proof -
  from assms have ly: "length y = 4" and t: "take 2 y \<noteq> ''20''"
    and lm: "length m = 1 \<or> length m = 2" and ld: "length d = 1 \<or> length d = 2"
    and s1: "s1 = CHR ''-'' \<or> s1 = CHR ''_''" and s2: "s2 = CHR ''-'' \<or> s2 = CHR ''_''"
    unfolding date_outside_20xx_def by blast+
  from ly obtain a b c e where y: "y = [a, b, c, e]" using len4 by blast
  have tk: "take 2 [a, b, c, e] = [a, b]" by (simp add: numeral_2_eq_2)
  have ab: "\<not> (a = CHR ''2'' \<and> b = CHR ''0'')"
  proof
    assume "a = CHR ''2'' \<and> b = CHR ''0''"
    then have "[a, b] = ''20''" by (elim conjE, hypsubst, intro refl)
    moreover from t have "[a, b] \<noteq> ''20''" unfolding y tk .
    ultimately show False by (rule notE[rotated])
  qed
  from lm have mm: "(\<exists>m1. m = [m1]) \<or> (\<exists>m1 m2. m = [m1, m2])"
    using len1[of m] len2[of m] by blast
  from ld have dd: "(\<exists>d1. d = [d1]) \<or> (\<exists>d1 d2. d = [d1, d2])"
    using len1[of d] len2[of d] by blast
  show "\<not> has_20xx (y @ [s1] @ m @ [s2] @ d)"
    unfolding y using mm dd
    by (elim disjE exE; simp only: iso_chars[OF ab s1 s2] simp_thms)
  show "\<not> has_20xx (m @ [s1] @ d @ [s2] @ y)"
    unfolding y using mm dd
    by (elim disjE exE; simp only: us_chars[OF ab s1 s2] simp_thms)
qed

text \<open>
  C10, as the spec states it, fails: a date with a year outside 2000 to 2099 in a file
  name or in a text does not keep the parsers from returning a date. The patterns of
  lines 100, 108 and 122 are searched anywhere in the string, so the US-order pattern
  reads 05-12-2010 out of the name \<open>1999-05-12-2010.docx\<close> and 1-5-2099 out of
  \<open>1-5-20991.docx\<close>, and the text pattern skips \<open>May 3, 1999\<close> and reads the later
  \<open>Jun 4, 2010\<close>; such a document has a deterministic date.
\<close>

theorem out_of_range_date_does_not_stop_the_parsers:
  "parse_date_from_filename ''1999-05-12-2010.docx'' = Some ''2010-05-12''
   \<and> parse_date_from_filename ''1-5-20991.docx'' = Some ''2099-01-05''
   \<and> parse_date_from_text ''May 3, 1999 Jun 4, 2010'' = Some ''2010-06-04''
   \<and> date_guess_of ''1999-05-12-2010.docx'' ''May 3, 1999'' = ''2010-05-12''"
  by code_simp

text \<open>
  C10, amended: the two parsers recognise years 2000 to 2099 only. Every date either of
  them returns, and so every non-empty deterministic date, is a calendar date with a
  year in that range. A file name whose stem, or a text whose first twenty lines,
  nowhere has the digits \<open>20\<close> followed by two digits gets no date from its parser; in
  particular a file name whose stem is exactly a numeric date, year first or year last,
  with a four-digit year that does not begin with \<open>20\<close> gets none; and a document
  with such a name and such a text has no deterministic date, so that its date can only
  come from the inference reply.
\<close>

theorem heuristic_dates_are_20xx:
  "(parse_date_from_filename n = Some s \<longrightarrow>
      (\<exists>y mo d. 2000 \<le> y \<and> y \<le> 2099 \<and> datetime y mo d = Some (y, mo, d) \<and> s = strftime (y, mo, d)))
   \<and> (parse_date_from_text body = Some s' \<longrightarrow>
      (\<exists>y mo d. 2000 \<le> y \<and> y \<le> 2099 \<and> datetime y mo d = Some (y, mo, d) \<and> s' = strftime (y, mo, d)))
   \<and> (date_guess_of n body \<noteq> [] \<longrightarrow>
      (\<exists>y mo d. 2000 \<le> y \<and> y \<le> 2099 \<and> datetime y mo d = Some (y, mo, d)
         \<and> date_guess_of n body = strftime (y, mo, d)))
   \<and> (\<not> has_20xx (path_stem n) \<longrightarrow> parse_date_from_filename n = None)
   \<and> (\<not> has_20xx (head_lines body) \<longrightarrow> parse_date_from_text body = None)
   \<and> (date_outside_20xx yr m dy s1 s2
        \<and> (path_stem n = yr @ [s1] @ m @ [s2] @ dy \<or> path_stem n = m @ [s1] @ dy @ [s2] @ yr)
      \<longrightarrow> parse_date_from_filename n = None)
   \<and> (\<not> has_20xx (path_stem n) \<and> \<not> has_20xx (head_lines body) \<longrightarrow> date_guess_of n body = [])"
proof -
  have range: "(parse_date_from_filename n = Some s \<longrightarrow>
      (\<exists>y mo d. 2000 \<le> y \<and> y \<le> 2099 \<and> datetime y mo d = Some (y, mo, d) \<and> s = strftime (y, mo, d)))
   \<and> (parse_date_from_text body = Some s' \<longrightarrow>
      (\<exists>y mo d. 2000 \<le> y \<and> y \<le> 2099 \<and> datetime y mo d = Some (y, mo, d) \<and> s' = strftime (y, mo, d)))
   \<and> (date_guess_of n body \<noteq> [] \<longrightarrow>
      (\<exists>y mo d. 2000 \<le> y \<and> y \<le> 2099 \<and> datetime y mo d = Some (y, mo, d)
         \<and> date_guess_of n body = strftime (y, mo, d)))
   \<and> (\<not> has_20xx (path_stem n) \<longrightarrow> parse_date_from_filename n = None)
   \<and> (\<not> has_20xx (head_lines body) \<longrightarrow> parse_date_from_text body = None)"
    using parse_date_from_filename_recognised[of n] parse_date_from_text_recognised[of body]
      parse_date_from_filename_needs_20xx[of n] parse_date_from_text_needs_20xx[of body]
    by (auto simp: recognised_def date_guess_of_cases split: option.splits)
  have exact: "date_outside_20xx yr m dy s1 s2
        \<and> (path_stem n = yr @ [s1] @ m @ [s2] @ dy \<or> path_stem n = m @ [s1] @ dy @ [s2] @ yr)
      \<longrightarrow> parse_date_from_filename n = None"
  proof (intro impI, elim conjE)
    assume o: "date_outside_20xx yr m dy s1 s2"
      and p: "path_stem n = yr @ [s1] @ m @ [s2] @ dy \<or> path_stem n = m @ [s1] @ dy @ [s2] @ yr"
    from p have "\<not> has_20xx (path_stem n)"
    proof
      assume e: "path_stem n = yr @ [s1] @ m @ [s2] @ dy"
      show ?thesis unfolding e by (rule date_outside_20xx_no_20xx(1)[OF o])
    next
      assume e: "path_stem n = m @ [s1] @ dy @ [s2] @ yr"
      show ?thesis unfolding e by (rule date_outside_20xx_no_20xx(2)[OF o])
    qed
    then show "parse_date_from_filename n = None"
      by (rule parse_date_from_filename_needs_20xx)
  qed
  have none: "\<not> has_20xx (path_stem n) \<and> \<not> has_20xx (head_lines body)
      \<longrightarrow> date_guess_of n body = []"
    using parse_date_from_filename_needs_20xx[of n] parse_date_from_text_needs_20xx[of body]
    by (auto simp: date_guess_of_cases)
  from range exact none show ?thesis by blast
qed

theorem heuristic_dates_are_20xx_witness:
  "parse_date_from_filename ''a_2024-1-05x.docx'' = Some ''2024-01-05''
   \<and> parse_date_from_text ''On jAnuary 5th, 2024.'' = Some ''2024-01-05''
   \<and> date_guess_of ''a_2024-1-05x.docx'' ''On jAnuary 5th, 2024.'' \<noteq> []
   \<and> \<not> has_20xx (path_stem ''1999-12-31.docx'')
   \<and> \<not> has_20xx (head_lines ''May 3, 2100 or 1999'')
   \<and> date_outside_20xx ''1999'' ''12'' ''31'' (CHR ''-'') (CHR ''-'')
   \<and> path_stem ''1999-12-31.docx'' = ''1999'' @ ''-'' @ ''12'' @ ''-'' @ ''31''
   \<and> date_outside_20xx ''2100'' ''7'' ''04'' (CHR ''_'') (CHR ''-'')
   \<and> path_stem ''7_04-2100.docx'' = ''7'' @ ''_'' @ ''04'' @ ''-'' @ ''2100''
   \<and> (\<exists>y mo d. 2000 \<le> y \<and> y \<le> 2099 \<and> datetime y mo d = Some (y, mo, d)
         \<and> ''2024-01-05'' = strftime (y, mo, d))
   \<and> parse_date_from_filename ''1999-12-31.docx'' = None
   \<and> parse_date_from_text ''May 3, 2100 or 1999'' = None
   \<and> parse_date_from_filename ''7_04-2100.docx'' = None
   \<and> date_guess_of ''1999-12-31.docx'' ''May 3, 2100 or 1999'' = []"
proof -
  have f: "parse_date_from_filename ''a_2024-1-05x.docx'' = Some ''2024-01-05''" by code_simp
  have t: "parse_date_from_text ''On jAnuary 5th, 2024.'' = Some ''2024-01-05''" by code_simp
  have g: "date_guess_of ''a_2024-1-05x.docx'' ''On jAnuary 5th, 2024.'' \<noteq> []"
    using f by (simp add: date_guess_of_cases)
  have nf: "\<not> has_20xx (path_stem ''1999-12-31.docx'')" by code_simp
  have nt: "\<not> has_20xx (head_lines ''May 3, 2100 or 1999'')" by code_simp
  have o1: "date_outside_20xx ''1999'' ''12'' ''31'' (CHR ''-'') (CHR ''-'')" by code_simp
  have p1: "path_stem ''1999-12-31.docx'' = ''1999'' @ ''-'' @ ''12'' @ ''-'' @ ''31''"
    by code_simp
  have o2: "date_outside_20xx ''2100'' ''7'' ''04'' (CHR ''_'') (CHR ''-'')" by code_simp
  have p2: "path_stem ''7_04-2100.docx'' = ''7'' @ ''_'' @ ''04'' @ ''-'' @ ''2100''"
    by code_simp
  note a = heuristic_dates_are_20xx[of "''a_2024-1-05x.docx''" "''2024-01-05''"
      "''On jAnuary 5th, 2024.''" "''2024-01-05''"]
  note b = heuristic_dates_are_20xx[of "''1999-12-31.docx''" _ "''May 3, 2100 or 1999''" _
      "''1999''" "''12''" "''31''" "CHR ''-''" "CHR ''-''"]
  note c = heuristic_dates_are_20xx[of "''7_04-2100.docx''" _ _ _
      "''2100''" "''7''" "''04''" "CHR ''_''" "CHR ''-''"]
  from a f t g have r: "\<exists>y mo d. 2000 \<le> y \<and> y \<le> 2099 \<and> datetime y mo d = Some (y, mo, d)
         \<and> ''2024-01-05'' = strftime (y, mo, d)" by blast
  from b nf have x1: "parse_date_from_filename ''1999-12-31.docx'' = None" by blast
  from b nt have x2: "parse_date_from_text ''May 3, 2100 or 1999'' = None" by blast
  from c o2 p2 have x3: "parse_date_from_filename ''7_04-2100.docx'' = None" by blast
  from b nf nt have x4: "date_guess_of ''1999-12-31.docx'' ''May 3, 2100 or 1999'' = []" by blast
  from f t g nf nt o1 p1 o2 p2 r x1 x2 x3 x4 show ?thesis by blast
qed

section \<open>The loop over the folder\<close>

lemma and_then_Inr [simp]: "and_then (Inr v) f = f v"
  by (simp add: and_then_def)

lemma and_then_Inl [simp]: "and_then (Inl e) f = Inl e"
  by (simp add: and_then_def)

lemma and_then_eq_Inr: "and_then m f = Inr y \<longleftrightarrow> (\<exists>v. m = Inr v \<and> f v = Inr y)"
  by (cases m) auto

lemma lift_exn_eq_Inr [simp]: "lift_exn m = Inr v \<longleftrightarrow> m = Inr v"
  by (cases m) (auto simp: lift_exn_def)

subsection \<open>Fingerprints\<close>

lemma set_fingerprint_same:
  assumes "set_fingerprint s n h = Inr s'"
  shows "fingerprint s' n = Inr (JStr h)"
  using assms
  by (auto simp: set_fingerprint_def fingerprint_def update_conv' split: json.splits option.splits)

lemma set_fingerprint_other:
  assumes "set_fingerprint s n h = Inr s'" and "m \<noteq> n"
  shows "fingerprint s' m = fingerprint s m"
  using assms
  by (auto simp: set_fingerprint_def fingerprint_def update_conv' split: json.splits option.splits)

lemma fingerprint_ok_set_fingerprint:
  assumes "fingerprint s n = Inr v"
  shows "\<exists>s'. set_fingerprint s n h = Inr s'"
  using assms
  by (cases s) (auto simp: set_fingerprint_def fingerprint_def and_then_eq_Inr
      split: json.splits option.splits)

subsection \<open>Scanning and upsert\<close>

lemma py_get_Inr_is_obj: "py_get a k = Inr v \<Longrightarrow> is_obj a"
  by (cases a) (auto simp: py_get_def)

lemma is_obj_py_get: "is_obj a \<Longrightarrow> py_get a k = Inr (source_file a) \<or> k \<noteq> ''sourceFile''"
  by (cases a) (auto simp: py_get_def source_file_def)

lemma py_get_source_file: "py_get a ''sourceFile'' = Inr v \<Longrightarrow> source_file a = v"
  by (simp add: source_file_def)

lemma is_obj_source_file: "is_obj a \<Longrightarrow> py_get a ''sourceFile'' = Inr (source_file a)"
  by (cases a) (auto simp: py_get_def source_file_def)

lemma find_entry_Some:
  assumes "find_entry n as k = Inr (Some i)"
  shows "k \<le> i \<and> i - k < length as \<and> keyed n (as ! (i - k))"
  using assms
proof (induction as arbitrary: k)
  case Nil
  then show ?case by simp
next
  case (Cons a as)
  from Cons.prems obtain sf where sf: "py_get a ''sourceFile'' = Inr sf"
    and rest: "(if sf = JStr n then Inr (Some k) else find_entry n as (Suc k)) = Inr (Some i)"
    by (auto simp: and_then_eq_Inr)
  show ?case
  proof (cases "sf = JStr n")
    case True
    with rest sf show ?thesis by (simp add: keyed_def source_file_def)
  next
    case False
    with rest have "find_entry n as (Suc k) = Inr (Some i)" by simp
    from Cons.IH[OF this] have "Suc k \<le> i" "i - Suc k < length as" "keyed n (as ! (i - Suc k))"
      by auto
    moreover from \<open>Suc k \<le> i\<close> have "i - k = Suc (i - Suc k)" by simp
    ultimately show ?thesis by simp
  qed
qed

lemma find_entry_None:
  assumes "find_entry n as k = Inr None"
  shows "\<forall>a \<in> set as. \<not> keyed n a"
  using assms
proof (induction as arbitrary: k)
  case Nil
  then show ?case by simp
next
  case (Cons a as)
  then show ?case
    by (auto simp: and_then_eq_Inr keyed_def source_file_def split: if_splits)
qed

lemma find_entry_all_obj:
  assumes "\<forall>a \<in> set as. is_obj a"
  shows "\<exists>r. find_entry n as k = Inr r"
  using assms
proof (induction as arbitrary: k)
  case Nil
  then show ?case by simp
next
  case (Cons a as)
  then show ?case by (auto simp: is_obj_source_file)
qed

lemma filter_list_update_other:
  assumes "i < length xs" and "\<not> P (xs ! i)" and "\<not> P a"
  shows "filter P (xs[i := a]) = filter P xs"
  using assms
proof (induction xs arbitrary: i)
  case Nil
  then show ?case by simp
next
  case (Cons x xs)
  then show ?case by (cases i) auto
qed

lemma keyed_inject: "keyed n a \<Longrightarrow> keyed m a \<Longrightarrow> n = m"
  by (simp add: keyed_def)

lemma filter_keyed_upsert_other:
  assumes "find_entry n as 0 = Inr r" and "keyed n a" and "m \<noteq> n"
  shows "filter (keyed m) (upsert as r a) = filter (keyed m) as"
proof (cases r)
  case None
  with assms show ?thesis by (auto simp: upsert_def dest: keyed_inject)
next
  case (Some i)
  with assms(1) have "i < length as" "keyed n (as ! i)"
    using find_entry_Some[of n as 0 i] by auto
  with assms Some show ?thesis
    by (auto simp: upsert_def intro!: filter_list_update_other dest: keyed_inject)
qed

lemma set_upsert_subset: "set (upsert as r a) \<subseteq> insert a (set as)"
  by (cases r) (auto simp: upsert_def dest: set_update_subset_insert[THEN subsetD])

lemma upsert_all_obj_back:
  assumes "find_entry n as 0 = Inr r" and "\<forall>x \<in> set (upsert as r a). is_obj x"
  shows "\<forall>x \<in> set as. is_obj x"
proof (cases r)
  case None
  with assms show ?thesis by (auto simp: upsert_def)
next
  case (Some i)
  with assms(1) have i: "i < length as" and k: "keyed n (as ! i)"
    using find_entry_Some[of n as 0 i] by auto
  have obj_i: "is_obj (as ! i)"
    using k by (cases "as ! i") (auto simp: keyed_def source_file_def py_get_def)
  show ?thesis
  proof
    fix x assume "x \<in> set as"
    then obtain j where j: "j < length as" "x = as ! j" by (auto simp: in_set_conv_nth)
    show "is_obj x"
    proof (cases "j = i")
      case True
      with obj_i j show ?thesis by simp
    next
      case False
      with j i have "x = (as[i := a]) ! j" "j < length (as[i := a])" by auto
      then have "x \<in> set (as[i := a])" by (metis nth_mem)
      with assms(2) Some show ?thesis by (simp add: upsert_def)
    qed
  qed
qed

lemma infer_article_source:
  assumes "infer_article d body wc g = Inr a"
  shows "keyed (doc_name d) a \<and> is_obj a"
  using assms
  by (auto simp: infer_article_def response_fields_def and_then_eq_Inr keyed_def source_file_def
      py_get_def split: sum.splits prod.splits)

lemma process_document_cases:
  assumes "process_document r st d = Inr st'"
  obtains
    (skipped) "unchanged r (state st) d" "st' = st"
  | (content_free) "\<not> unchanged r (state st) d" "word_count (extract_text d) = 0"
      "set_fingerprint (state st) (doc_name d) (doc_hash d) = Inr (state st')"
      "articles st' = articles st" "errors st' = errors st"
      "missing_date_rows st' = missing_date_rows st"
      "processed st' = processed st" "updated st' = updated st"
      "calls st' = calls st @ [Extract (doc_name d)]"
  | (failed) x where "\<not> unchanged r (state st) d" "0 < word_count (extract_text d)"
      "article_for d = Inl x
       \<or> (\<exists>a. article_for d = Inr a \<and> find_entry (doc_name d) (articles st) 0 = Inl x)"
      "set_fingerprint (state st) (doc_name d) (doc_hash d) = Inr (state st')"
      "articles st' = articles st" "errors st' = errors st @ [error_record (doc_name d) x]"
      "missing_date_rows st' = missing_date_rows st"
      "processed st' = processed st" "updated st' = updated st"
      "calls st' = calls st @ [Extract (doc_name d), Infer (doc_name d)]"
  | (stored) a i where "\<not> unchanged r (state st) d" "0 < word_count (extract_text d)"
      "article_for d = Inr a" "find_entry (doc_name d) (articles st) 0 = Inr i"
      "set_fingerprint (state st) (doc_name d) (doc_hash d) = Inr (state st')"
      "articles st' = upsert (articles st) i a" "errors st' = errors st"
      "missing_date_rows st' = missing_date_rows st @ missing_row d a"
      "processed st' = Suc (processed st)" "updated st' = Suc (updated st)"
      "calls st' = calls st @ [Extract (doc_name d), Infer (doc_name d)]"
proof -
  let ?n = "doc_name d" and ?h = "doc_hash d"
  let ?wc = "word_count (extract_text d)"
  from assms obtain prev where prev: "fingerprint (state st) ?n = Inr prev"
    by (auto simp: process_document_def and_then_eq_Inr)
  show ?thesis
  proof (cases "unchanged r (state st) d")
    case True
    with assms prev have "st' = st"
      by (auto simp: process_document_def unchanged_def)
    with True show ?thesis by (rule skipped)
  next
    case False
    then have nskip: "\<not> (r \<and> prev = JStr ?h)"
      using prev by (auto simp: unchanged_def)
    show ?thesis
    proof (cases "?wc = 0")
      case True
      with assms prev nskip obtain s where
        "set_fingerprint (state st) ?n ?h = Inr s"
        "st' = st\<lparr>calls := calls st @ [Extract ?n], state := s\<rparr>"
        by (auto simp: process_document_def Let_def and_then_eq_Inr)
      with False True show ?thesis by (intro content_free) auto
    next
      case wc: False
      let ?st2 = "st\<lparr>calls := calls st @ [Extract ?n, Infer ?n]\<rparr>"
      let ?tb = "try_block d (extract_text d) ?wc (date_guess_of ?n (extract_text d)) ?st2"
      show ?thesis
      proof (cases ?tb)
        case (Inl x)
        then have x: "article_for d = Inl x
          \<or> (\<exists>a. article_for d = Inr a \<and> find_entry ?n (articles st) 0 = Inl x)"
          by (cases "article_for d"; cases "find_entry ?n (articles st) 0")
             (auto simp: try_block_def article_for_def)
        from assms prev nskip wc Inl obtain s where
          "set_fingerprint (state st) ?n ?h = Inr s"
          "st' = st\<lparr>calls := calls st @ [Extract ?n, Infer ?n],
                     errors := errors st @ [error_record ?n x], state := s\<rparr>"
          by (auto simp: process_document_def Let_def and_then_eq_Inr)
        with x False wc show ?thesis
          by (intro failed[of x]) auto
      next
        case (Inr st3)
        then obtain a i where a: "article_for d = Inr a"
          and i: "find_entry ?n (articles st) 0 = Inr i"
          and st3: "st3 = ?st2\<lparr>articles := upsert (articles st) i a,
               updated := Suc (updated st),
               processed := Suc (processed st),
               missing_date_rows :=
                 (if str_field a ''date'' = []
                  then missing_date_rows st
                         @ [[JStr ?n, JStr (str_field a ''title''), JInt (int ?wc)]]
                  else missing_date_rows st)\<rparr>"
          by (auto simp: try_block_def article_for_def and_then_eq_Inr)
        from assms prev nskip wc Inr obtain s where
          "set_fingerprint (state st3) ?n ?h = Inr s" "st' = st3\<lparr>state := s\<rparr>"
          by (auto simp: process_document_def Let_def and_then_eq_Inr)
        with a i st3 False wc show ?thesis
          by (intro stored[of a i]) (auto simp: missing_row_def)
      qed
    qed
  qed
qed

subsection \<open>One iteration\<close>

lemma step_fingerprint_own:
  assumes "process_document r st d = Inr st'"
  shows "fingerprint (state st') (doc_name d) = Inr (JStr (doc_hash d))"
  using assms
  by (cases rule: process_document_cases) (auto simp: unchanged_def dest: set_fingerprint_same)

lemma step_fingerprint_other:
  assumes "process_document r st d = Inr st'" and "m \<noteq> doc_name d"
  shows "fingerprint (state st') m = fingerprint (state st) m"
  using assms
  by (cases rule: process_document_cases) (auto dest: set_fingerprint_other)

lemma step_unchanged:
  assumes "unchanged True (state st) d"
  shows "process_document True st d = Inr st"
  using assms by (simp add: process_document_def unchanged_def)

lemma step_keyed_other:
  assumes "process_document r st d = Inr st'" and "m \<noteq> doc_name d"
  shows "filter (keyed m) (articles st') = filter (keyed m) (articles st)"
  using assms
proof (cases rule: process_document_cases)
  case (stored a i)
  from stored(3) have "keyed (doc_name d) a"
    by (auto simp: article_for_def dest: infer_article_source)
  with stored assms(2) show ?thesis
    by (simp add: filter_keyed_upsert_other)
qed auto

lemma step_not_stored:
  assumes "process_document r st d = Inr st'"
    and "word_count (extract_text d) = 0 \<or> (\<exists>x. article_for d = Inl x)"
  shows "articles st' = articles st"
  using assms by (cases rule: process_document_cases) auto

lemma step_calls:
  assumes "process_document r st d = Inr st'"
  shows "\<exists>evs. calls st' = calls st @ evs
          \<and> set evs \<subseteq> {Extract (doc_name d), Infer (doc_name d)}
          \<and> (Infer (doc_name d) \<in> set evs
               \<longleftrightarrow> \<not> unchanged r (state st) d \<and> 0 < word_count (extract_text d))
          \<and> (Extract (doc_name d) \<in> set evs \<longleftrightarrow> \<not> unchanged r (state st) d)"
  using assms by (cases rule: process_document_cases) auto

lemma step_calls_other:
  assumes "process_document r st d = Inr st'" and "m \<noteq> doc_name d"
  shows "(Infer m \<in> set (calls st') \<longleftrightarrow> Infer m \<in> set (calls st))
       \<and> (Extract m \<in> set (calls st') \<longleftrightarrow> Extract m \<in> set (calls st))"
  using step_calls[OF assms(1)] assms(2) by auto

lemma step_errors:
  assumes "process_document r st d = Inr st'"
  shows "set (errors st) \<subseteq> set (errors st')"
  using assms by (cases rule: process_document_cases) auto

lemma step_obj_back:
  assumes "process_document r st d = Inr st'" and "\<forall>a \<in> set (articles st'). is_obj a"
  shows "\<forall>a \<in> set (articles st). is_obj a"
  using assms
proof (cases rule: process_document_cases)
  case (stored a i)
  with assms(2) show ?thesis using upsert_all_obj_back[of "doc_name d" "articles st" i a] by simp
qed auto

lemma step_provenance:
  assumes "process_document r st d = Inr st'" and "a \<in> set (articles st')"
  shows "a \<in> set (articles st) \<or> keyed (doc_name d) a"
  using assms
proof (cases rule: process_document_cases)
  case (stored b i)
  from stored(3) have "keyed (doc_name d) b"
    by (auto simp: article_for_def dest: infer_article_source)
  with stored assms(2) show ?thesis
    using set_upsert_subset[of "articles st" i b] by auto
qed auto

subsection \<open>The whole loop\<close>

lemma process_all_Cons:
  "process_all r (d # ds) st = Inr st' \<longleftrightarrow>
     (\<exists>st1. process_document r st d = Inr st1 \<and> process_all r ds st1 = Inr st')"
  by (simp add: and_then_eq_Inr)

lemma loop_fingerprint_other:
  assumes "process_all r ds st = Inr st'" and "m \<notin> doc_name ` set ds"
  shows "fingerprint (state st') m = fingerprint (state st) m"
  using assms
proof (induction ds arbitrary: st)
  case Nil
  then show ?case by simp
next
  case (Cons d ds)
  from Cons.prems(1) obtain st1 where
    1: "process_document r st d = Inr st1" and 2: "process_all r ds st1 = Inr st'"
    by (auto simp: and_then_eq_Inr)
  from Cons.prems(2) have "m \<noteq> doc_name d" "m \<notin> doc_name ` set ds" by auto
  with Cons.IH[OF 2] step_fingerprint_other[OF 1] show ?case by simp
qed

lemma loop_fingerprints:
  assumes "process_all r ds st = Inr st'" and "distinct (map doc_name ds)" and "d \<in> set ds"
  shows "fingerprint (state st') (doc_name d) = Inr (JStr (doc_hash d))"
  using assms
proof (induction ds arbitrary: st)
  case Nil
  then show ?case by simp
next
  case (Cons d' ds)
  from Cons.prems(1) obtain st1 where
    1: "process_document r st d' = Inr st1" and 2: "process_all r ds st1 = Inr st'"
    by (auto simp: and_then_eq_Inr)
  show ?case
  proof (cases "d \<in> set ds")
    case True
    with Cons.IH[OF 2] Cons.prems(2) show ?thesis by simp
  next
    case False
    with Cons.prems(3) have [simp]: "d = d'" by simp
    from Cons.prems(2) have "doc_name d \<notin> doc_name ` set ds" by simp
    from loop_fingerprint_other[OF 2 this] step_fingerprint_own[OF 1] show ?thesis by simp
  qed
qed

lemma loop_skip_all:
  assumes "\<forall>d \<in> set ds. unchanged True (state st) d"
  shows "process_all True ds st = Inr st"
  using assms by (induction ds) (auto simp: step_unchanged)

lemma loop_keyed:
  assumes "process_all r ds st = Inr st'"
    and "\<forall>d \<in> set ds. doc_name d = m \<longrightarrow>
           word_count (extract_text d) = 0 \<or> (\<exists>x. article_for d = Inl x)"
  shows "filter (keyed m) (articles st') = filter (keyed m) (articles st)"
  using assms
proof (induction ds arbitrary: st)
  case Nil
  then show ?case by simp
next
  case (Cons d ds)
  from Cons.prems(1) obtain st1 where
    1: "process_document r st d = Inr st1" and 2: "process_all r ds st1 = Inr st'"
    by (auto simp: and_then_eq_Inr)
  have "filter (keyed m) (articles st1) = filter (keyed m) (articles st)"
  proof (cases "doc_name d = m")
    case True
    with Cons.prems(2) step_not_stored[OF 1] show ?thesis by simp
  next
    case False
    then show ?thesis using step_keyed_other[OF 1, of m] by simp
  qed
  moreover from Cons.IH[OF 2] Cons.prems(2)
  have "filter (keyed m) (articles st') = filter (keyed m) (articles st1)" by simp
  ultimately show ?case by simp
qed

lemma loop_calls_other:
  assumes "process_all r ds st = Inr st'" and "m \<notin> doc_name ` set ds"
  shows "(Infer m \<in> set (calls st') \<longleftrightarrow> Infer m \<in> set (calls st))
       \<and> (Extract m \<in> set (calls st') \<longleftrightarrow> Extract m \<in> set (calls st))"
  using assms
proof (induction ds arbitrary: st)
  case Nil
  then show ?case by simp
next
  case (Cons d ds)
  from Cons.prems(1) obtain st1 where
    1: "process_document r st d = Inr st1" and 2: "process_all r ds st1 = Inr st'"
    by (auto simp: and_then_eq_Inr)
  from Cons.prems(2) have "m \<noteq> doc_name d" "m \<notin> doc_name ` set ds" by auto
  with Cons.IH[OF 2] step_calls_other[OF 1] show ?case by simp
qed

lemma loop_infer_called:
  assumes "process_all r ds st = Inr st'" and "Infer m \<in> set (calls st')"
  shows "Infer m \<in> set (calls st)
       \<or> (\<exists>d \<in> set ds. doc_name d = m \<and> 0 < word_count (extract_text d))"
  using assms
proof (induction ds arbitrary: st)
  case Nil
  then show ?case by simp
next
  case (Cons d ds)
  from Cons.prems(1) obtain st1 where
    1: "process_document r st d = Inr st1" and 2: "process_all r ds st1 = Inr st'"
    by (auto simp: and_then_eq_Inr)
  from Cons.IH[OF 2 Cons.prems(2)] step_calls[OF 1] show ?case by auto
qed

lemma loop_errors:
  assumes "process_all r ds st = Inr st'"
  shows "set (errors st) \<subseteq> set (errors st')"
  using assms
proof (induction ds arbitrary: st)
  case Nil
  then show ?case by simp
next
  case (Cons d ds)
  from Cons.prems(1) obtain st1 where
    1: "process_document r st d = Inr st1" and 2: "process_all r ds st1 = Inr st'"
    by (auto simp: and_then_eq_Inr)
  from Cons.IH[OF 2] step_errors[OF 1] show ?case by blast
qed

lemma loop_obj_back:
  assumes "process_all r ds st = Inr st'" and "\<forall>a \<in> set (articles st'). is_obj a"
  shows "\<forall>a \<in> set (articles st). is_obj a"
  using assms
proof (induction ds arbitrary: st)
  case Nil
  then show ?case by simp
next
  case (Cons d ds)
  from Cons.prems(1) obtain st1 where
    1: "process_document r st d = Inr st1" and 2: "process_all r ds st1 = Inr st'"
    by (auto simp: and_then_eq_Inr)
  from Cons.IH[OF 2 Cons.prems(2)] step_obj_back[OF 1] show ?case by blast
qed

lemma loop_provenance:
  assumes "process_all r ds st = Inr st'" and "a \<in> set (articles st')"
  shows "a \<in> set (articles st) \<or> (\<exists>d \<in> set ds. keyed (doc_name d) a)"
  using assms
proof (induction ds arbitrary: st)
  case Nil
  then show ?case by simp
next
  case (Cons d ds)
  from Cons.prems(1) obtain st1 where
    1: "process_document r st d = Inr st1" and 2: "process_all r ds st1 = Inr st'"
    by (auto simp: and_then_eq_Inr)
  from Cons.IH[OF 2 Cons.prems(2)] step_provenance[OF 1] show ?case by auto
qed

lemma loop_error_recorded:
  assumes "process_all r ds st = Inr st'" and "distinct (map doc_name ds)" and "d \<in> set ds"
    and "Infer (doc_name d) \<notin> set (calls st)" and "Infer (doc_name d) \<in> set (calls st')"
    and "article_for d = Inl x"
  shows "error_record (doc_name d) x \<in> set (errors st')"
  using assms
proof (induction ds arbitrary: st)
  case Nil
  then show ?case by simp
next
  case (Cons d' ds)
  from Cons.prems(1) obtain st1 where
    1: "process_document r st d' = Inr st1" and 2: "process_all r ds st1 = Inr st'"
    by (auto simp: and_then_eq_Inr)
  show ?case
  proof (cases "d \<in> set ds")
    case True
    then have "doc_name d \<in> doc_name ` set ds" by (rule imageI)
    moreover from Cons.prems(2) have "doc_name d' \<notin> doc_name ` set ds" by simp
    ultimately have ne: "doc_name d \<noteq> doc_name d'" by metis
    with step_calls_other[OF 1] Cons.prems(4) have "Infer (doc_name d) \<notin> set (calls st1)"
      by simp
    with Cons.IH[OF 2 _ True] Cons.prems show ?thesis by simp
  next
    case False
    with Cons.prems(3) have [simp]: "d' = d" by simp
    from Cons.prems(2) have "doc_name d \<notin> doc_name ` set ds" by simp
    from loop_calls_other[OF 2 this] Cons.prems(5)
    have called: "Infer (doc_name d) \<in> set (calls st1)" by simp
    from 1 have "error_record (doc_name d) x \<in> set (errors st1)"
    proof (cases rule: process_document_cases)
      case skipped
      with called Cons.prems(4) show ?thesis by simp
    next
      case content_free
      with called Cons.prems(4) show ?thesis by simp
    next
      case (failed y)
      with Cons.prems(6) show ?thesis by auto
    next
      case (stored a i)
      with Cons.prems(6) show ?thesis by simp
    qed
    with loop_errors[OF 2] show ?thesis by blast
  qed
qed

section \<open>Prune, dedup, sort and the finished run\<close>

subsection \<open>Prune\<close>

lemma prune_articles_filter:
  assumes "prune_articles names as = Inr kept"
  shows "kept = filter (\<lambda>a. \<not> truthy (source_file a) \<or> in_folder names a) as
       \<and> (\<forall>a \<in> set as. is_obj a)"
  using assms
proof (induction as arbitrary: kept)
  case Nil
  then show ?case by simp
next
  case (Cons a as)
  from Cons.prems obtain sf present kept' where
    sf: "py_get a ''sourceFile'' = Inr sf" and
    pr: "(if truthy sf then in_names sf names else Inr True) = Inr present" and
    rest: "prune_articles names as = Inr kept'" and
    kept: "kept = (if truthy sf \<and> \<not> present then kept' else a # kept')"
    by (auto simp: and_then_eq_Inr split: if_splits)
  from sf have sfa: "source_file a = sf" and obj: "is_obj a"
    by (auto simp: source_file_def dest: py_get_Inr_is_obj)
  have "truthy sf \<Longrightarrow> present = in_folder names a"
    using pr sfa by (cases sf) (auto simp: in_names_def in_folder_def)
  with Cons.IH[OF rest] kept sfa obj show ?case by auto
qed

lemma prune_articles_identity:
  assumes "\<forall>a \<in> set as. is_obj a \<and> in_folder names a"
  shows "prune_articles names as = Inr as"
  using assms
proof (induction as)
  case Nil
  then show ?case by simp
next
  case (Cons a as)
  then obtain s where s: "source_file a = JStr s" "s \<in> set names" and obj: "is_obj a"
    by (auto simp: in_folder_def)
  from obj s have "py_get a ''sourceFile'' = Inr (JStr s)"
    using is_obj_source_file[of a] by simp
  with Cons s show ?case by (simp add: in_names_def)
qed

subsection \<open>Dedup\<close>

lemma update_absent: "k \<notin> fst ` set al \<Longrightarrow> AList.update k v al = al @ [(k, v)]"
  by (induction al) auto

lemma set_update_subset: "set (AList.update k v al) \<subseteq> insert (k, v) (set al)"
  by (induction al) auto

lemma hash_key_str: "hash_key v = Inr (KStr n) \<longleftrightarrow> v = JStr n"
  by (cases v) (auto simp: hash_key_def)

lemma storableI:
  assumes "py_get a ''sourceFile'' = Inr sf" and "truthy sf" and "hash_key sf = Inr k"
  shows "storable a \<and> dedup_key a = k"
  using assms by (auto simp: storable_def dedup_key_def source_file_def dest: py_get_Inr_is_obj)

lemma dedup_articles_step:
  "dedup_articles (a # as) acc = Inr kvs \<longleftrightarrow>
     is_obj a \<and>
     (if truthy (source_file a)
      then storable a \<and> dedup_articles as (AList.update (dedup_key a) a acc) = Inr kvs
      else dedup_articles as acc = Inr kvs)"
proof (cases "py_get a ''sourceFile''")
  case (Inl e)
  then have "\<not> is_obj a" using is_obj_source_file[of a] by auto
  with Inl show ?thesis by simp
next
  case (Inr sf)
  then have sfa: "source_file a = sf" and obj: "is_obj a"
    by (auto simp: source_file_def dest: py_get_Inr_is_obj)
  show ?thesis
  proof (cases "truthy sf")
    case False
    with Inr sfa obj show ?thesis by simp
  next
    case True
    show ?thesis
    proof (cases "hash_key sf")
      case (Inl e)
      with Inr sfa obj True show ?thesis by (simp add: storable_def)
    next
      case (Inr k)
      with \<open>py_get a ''sourceFile'' = Inr sf\<close> True storableI[of a sf k] sfa obj
      show ?thesis by simp
    qed
  qed
qed

declare dedup_articles.simps(2) [simp del]

lemma dedup_articles_all_obj:
  assumes "dedup_articles as acc = Inr kvs"
  shows "\<forall>a \<in> set as. is_obj a"
  using assms
  by (induction as arbitrary: acc) (auto simp: dedup_articles_step split: if_splits)

lemma dedup_articles_distinct:
  assumes "dedup_articles as acc = Inr kvs" and "distinct (map fst acc)"
  shows "distinct (map fst kvs)"
  using assms
  by (induction as arbitrary: acc)
     (auto simp: dedup_articles_step distinct_update split: if_splits)

lemma dedup_articles_entries:
  assumes "dedup_articles as acc = Inr kvs" and "(k, a) \<in> set kvs"
  shows "(k, a) \<in> set acc \<or> (a \<in> set as \<and> storable a \<and> dedup_key a = k)"
  using assms
proof (induction as arbitrary: acc)
  case Nil
  then show ?case by simp
next
  case (Cons b as)
  show ?case
  proof (cases "truthy (source_file b)")
    case False
    with Cons.prems have "dedup_articles as acc = Inr kvs" by (simp add: dedup_articles_step)
    from Cons.IH[OF this Cons.prems(2)] show ?thesis by auto
  next
    case True
    with Cons.prems have st: "storable b"
      and r: "dedup_articles as (AList.update (dedup_key b) b acc) = Inr kvs"
      by (simp_all add: dedup_articles_step)
    from Cons.IH[OF r Cons.prems(2)] st set_update_subset[of "dedup_key b" b acc]
    show ?thesis by auto
  qed
qed

lemma dedup_articles_map_of:
  assumes "dedup_articles as acc = Inr kvs"
  shows "map_of kvs k =
     (case filter (\<lambda>a. truthy (source_file a) \<and> dedup_key a = k) as of
        [] \<Rightarrow> map_of acc k | xs \<Rightarrow> Some (last xs))"
  using assms
proof (induction as arbitrary: acc)
  case Nil
  then show ?case by simp
next
  case (Cons b as)
  let ?P = "\<lambda>a. truthy (source_file a) \<and> dedup_key a = k"
  show ?case
  proof (cases "truthy (source_file b)")
    case False
    with Cons.prems have "dedup_articles as acc = Inr kvs" by (simp add: dedup_articles_step)
    from Cons.IH[OF this] False show ?thesis by simp
  next
    case True
    with Cons.prems have r: "dedup_articles as (AList.update (dedup_key b) b acc) = Inr kvs"
      by (simp add: dedup_articles_step)
    note IH = Cons.IH[OF r]
    show ?thesis
    proof (cases "dedup_key b = k")
      case False
      with IH True show ?thesis by (simp add: update_conv' split: list.splits)
    next
      case k: True
      show ?thesis
      proof (cases "filter ?P as")
        case Nil
        with IH True k show ?thesis by (simp add: update_conv')
      next
        case (Cons c cs)
        with IH True k show ?thesis by simp
      qed
    qed
  qed
qed

lemma dedup_articles_identity:
  assumes "\<forall>a \<in> set as. storable a" and "distinct (map dedup_key as)"
    and "dedup_key ` set as \<inter> fst ` set acc = {}"
  shows "dedup_articles as acc = Inr (acc @ map (\<lambda>a. (dedup_key a, a)) as)"
  using assms
proof (induction as arbitrary: acc)
  case Nil
  then show ?case by simp
next
  case (Cons a as)
  from Cons.prems have st: "storable a" and fresh: "dedup_key a \<notin> fst ` set acc" by auto
  let ?acc = "acc @ [(dedup_key a, a)]"
  from Cons.prems have "dedup_key ` set as \<inter> fst ` set ?acc = {}" by auto
  with Cons.IH[of ?acc] Cons.prems
  have "dedup_articles as ?acc = Inr (?acc @ map (\<lambda>a. (dedup_key a, a)) as)" by simp
  with st fresh show ?case
    by (simp add: dedup_articles_step update_absent storable_def)
qed

lemma filter_fst_distinct:
  assumes "distinct (map fst kvs)"
  shows "filter (\<lambda>p. fst p = k) kvs = (case map_of kvs k of None \<Rightarrow> [] | Some v \<Rightarrow> [(k, v)])"
  using assms
proof (induction kvs)
  case Nil
  then show ?case by simp
next
  case (Cons p kvs)
  obtain k' v' where p: "p = (k', v')" by (cases p)
  show ?case
  proof (cases "k' = k")
    case True
    with Cons.prems p have "k \<notin> fst ` set kvs" by auto
    then have "filter (\<lambda>p. fst p = k) kvs = []" by (auto simp: filter_empty_conv)
    with True p show ?thesis by simp
  next
    case False
    with Cons p show ?thesis by simp
  qed
qed

lemma keyed_iff_key: "storable a \<Longrightarrow> keyed n a \<longleftrightarrow> dedup_key a = KStr n"
  by (cases "source_file a") (auto simp: storable_def keyed_def hash_key_def split: if_splits)

lemma keyed_storable: "is_obj a \<Longrightarrow> keyed n a \<Longrightarrow> n \<noteq> [] \<Longrightarrow> storable a"
  by (auto simp: storable_def keyed_def dedup_key_def hash_key_def)

subsection \<open>Sort\<close>

lemma sort_articles_eq:
  assumes "sort_articles xs = Inr ys"
  shows "ys = rev (sort_key key_of (rev xs))"
proof (cases "length xs \<le> 1")
  case True
  then have "xs = [] \<or> (\<exists>x. xs = [x])" by (cases xs) auto
  with assms True show ?thesis by (auto simp: sort_articles_def)
next
  case False
  with assms show ?thesis by (auto simp: sort_articles_def split: if_splits)
qed

lemma sort_articles_keys:
  assumes "sort_articles xs = Inr ys" and "1 < length xs"
  shows "\<forall>x \<in> set xs. sort_key_of x \<noteq> None"
  using assms by (auto simp: sort_articles_def list_all_iff split: if_splits)

lemma desc_sort_set [simp]: "set (rev (sort_key f (rev xs))) = set xs"
  by simp

lemma desc_sort_length [simp]: "length (rev (sort_key f (rev xs))) = length xs"
  by simp


lemma desc_sort_filter:
  "filter P (rev (sort_key f (rev xs))) = rev (sort_key f (rev (filter P xs)))"
  by (simp add: rev_filter[symmetric] filter_sort)


lemma desc_sort_idem:
  "rev (sort_key f (rev (rev (sort_key f (rev xs))))) = rev (sort_key f (rev xs))"
  by (simp add: sort_key_id_if_sorted)

lemma desc_sort_distinct_map:
  assumes "distinct (map g xs)"
  shows "distinct (map g (rev (sort_key f (rev xs))))"
proof -
  from assms have "distinct xs" "inj_on g (set xs)" by (auto simp: distinct_map)
  then show ?thesis by (simp add: distinct_map)
qed

lemma sort_articles_again:
  assumes "sort_articles xs = Inr ys"
  shows "sort_articles ys = Inr ys"
proof -
  from assms have ys: "ys = rev (sort_key key_of (rev xs))" by (rule sort_articles_eq)
  then have len: "length ys = length xs" and set: "set ys = set xs" by simp_all
  show ?thesis
  proof (cases "length xs \<le> 1")
    case True
    with len show ?thesis by (simp add: sort_articles_def)
  next
    case False
    with assms have "\<forall>x \<in> set xs. sort_key_of x \<noteq> None" by (simp add: sort_articles_keys)
    with set have "list_all (\<lambda>x. sort_key_of x \<noteq> None) ys" by (simp add: list_all_iff)
    moreover have "rev (sort_key key_of (rev ys)) = ys" unfolding ys by (rule desc_sort_idem)
    ultimately show ?thesis using False len by (simp add: sort_articles_def)
  qed
qed

subsection \<open>What remains of one source file after dedup and sort\<close>

lemma dedup_values_keyed:
  assumes "dedup_articles as [] = Inr kvs" and "n \<noteq> []"
  shows "filter (keyed n) (map snd kvs)
       = (case filter (keyed n) as of [] \<Rightarrow> [] | xs \<Rightarrow> [last xs])"
proof -
  note d = assms(1)
  have dist: "distinct (map fst kvs)" using dedup_articles_distinct[OF d] by simp
  have ent: "\<And>k a. (k, a) \<in> set kvs \<Longrightarrow> storable a \<and> dedup_key a = k"
    using dedup_articles_entries[OF d] by auto
  have 1: "filter (keyed n) (map snd kvs) = map snd (filter (\<lambda>p. fst p = KStr n) kvs)"
  proof -
    have "\<And>p. p \<in> set kvs \<Longrightarrow> keyed n (snd p) \<longleftrightarrow> fst p = KStr n"
      using ent keyed_iff_key by (metis prod.collapse)
    then have "filter (keyed n \<circ> snd) kvs = filter (\<lambda>p. fst p = KStr n) kvs"
      by (intro filter_cong) auto
    then show ?thesis by (simp add: filter_map)
  qed
  have 2: "map snd (filter (\<lambda>p. fst p = KStr n) kvs)
      = (case map_of kvs (KStr n) of None \<Rightarrow> [] | Some v \<Rightarrow> [v])"
    by (simp add: filter_fst_distinct[OF dist] split: option.splits)
  have 3: "filter (\<lambda>a. truthy (source_file a) \<and> dedup_key a = KStr n) as = filter (keyed n) as"
  proof (intro filter_cong refl)
    fix a assume "a \<in> set as"
    show "(truthy (source_file a) \<and> dedup_key a = KStr n) \<longleftrightarrow> keyed n a"
      by (cases "source_file a")
         (auto simp: keyed_def dedup_key_def hash_key_def unhashable_def assms(2) split: if_splits)
  qed
  have 4: "map_of kvs (KStr n)
      = (case filter (keyed n) as of [] \<Rightarrow> None | xs \<Rightarrow> Some (last xs))"
    using dedup_articles_map_of[OF d, of "KStr n"] unfolding 3 by (simp split: list.splits)
  show ?thesis unfolding 1 2 4 by (simp split: list.splits)
qed

lemma keyed_nonempty:
  assumes "dedup_articles as [] = Inr kvs" and "a \<in> snd ` set kvs" and "keyed n a"
  shows "n \<noteq> []"
proof -
  from assms(2) obtain k where "(k, a) \<in> set kvs" by auto
  with dedup_articles_entries[OF assms(1)] have "storable a" by auto
  with assms(3) show ?thesis by (auto simp: storable_def keyed_def)
qed

lemma final_keyed:
  assumes "dedup_articles as [] = Inr kvs" and "sort_articles (map snd kvs) = Inr ys"
    and "n \<noteq> []"
  shows "filter (keyed n) ys = (case filter (keyed n) as of [] \<Rightarrow> [] | xs \<Rightarrow> [last xs])"
proof -
  from assms(2) have "ys = rev (sort_key key_of (rev (map snd kvs)))" by (rule sort_articles_eq)
  then have "filter (keyed n) ys
      = rev (sort_key key_of (rev (filter (keyed n) (map snd kvs))))"
    by (simp only: desc_sort_filter)
  also have "\<dots> = filter (keyed n) (map snd kvs)"
    unfolding dedup_values_keyed[OF assms(1,3)] by (simp split: list.splits)
  finally show ?thesis by (simp only: dedup_values_keyed[OF assms(1,3)])
qed

subsection \<open>The shape of a finished run\<close>

lemma main_cases:
  assumes "main e = Inr r"
  obtains as st kvs ys where
    "folder_exists e" "api_key e \<noteq> []" "openai_installed e"
    "carried_forward e = Inr as"
    "process_all (resume e) (docx_files e) (initial_state e as) = Inr st"
    "dedup_articles (articles st) [] = Inr kvs"
    "sort_articles (map snd kvs) = Inr ys"
    "out_json_written r = JObj [(''generatedAt'', JStr (finish_clock e)),
                               (''articles'', JList ys), (''errors'', JList (errors st))]"
    "state_written r = state st"
    "missing_csv_written r = csv_header # missing_date_rows st"
    "exit_status r = (if updated st > 0 then 10 else 0)"
    "summary_processed r = processed st" "summary_updated r = updated st"
    "trace r = calls st"
proof -
  from assms have c: "folder_exists e" "api_key e \<noteq> []" "openai_installed e"
    by (auto simp: main_def and_then_eq_Inr split: if_splits)
  with assms obtain as st kvs ys where
    1: "carried_forward e = Inr as" and
    2: "process_all (resume e) (docx_files e) (initial_state e as) = Inr st" and
    3: "dedup_articles (articles st) [] = Inr kvs" and
    4: "sort_articles (map snd kvs) = Inr ys" and
    r: "r = \<lparr>out_json_written =
               JObj [(''generatedAt'', JStr (finish_clock e)),
                     (''articles'', JList ys),
                     (''errors'', JList (errors st))],
             state_written = state st,
             missing_csv_written = csv_header # missing_date_rows st,
             exit_status = (if updated st > 0 then 10 else 0),
             summary_processed = processed st,
             summary_updated = updated st,
             trace = calls st\<rparr>"
    by (auto simp: main_def and_then_eq_Inr)
  show ?thesis
    by (rule that[OF c 1 2 3 4]) (simp_all add: r)
qed

lemma articles_of_written [simp]:
  "articles_of (JObj [(''generatedAt'', g), (''articles'', JList ys), (''errors'', es)]) = ys"
  by (simp add: articles_of_def py_get_def)

lemma errors_of_written [simp]:
  "errors_of (JObj [(''generatedAt'', g), (''articles'', ys), (''errors'', JList es)]) = es"
  by (simp add: errors_of_def py_get_def)

subsection \<open>The collection a run writes\<close>

lemma final_articles:
  assumes "dedup_articles as [] = Inr kvs" and "sort_articles (map snd kvs) = Inr ys"
  shows "(\<forall>a \<in> set ys. storable a) \<and> distinct (map dedup_key ys) \<and> set ys \<subseteq> set as"
proof -
  have ent: "\<And>k a. (k, a) \<in> set kvs \<Longrightarrow> a \<in> set as \<and> storable a \<and> dedup_key a = k"
    using dedup_articles_entries[OF assms(1)] by auto
  have ys: "ys = rev (sort_key key_of (rev (map snd kvs)))"
    using assms(2) by (rule sort_articles_eq)
  then have set: "set ys = snd ` set kvs" by simp
  have "\<And>p. p \<in> set kvs \<Longrightarrow> dedup_key (snd p) = fst p"
    using ent by (metis prod.collapse)
  then have "map dedup_key (map snd kvs) = map fst kvs"
    by (induction kvs) auto
  moreover have "distinct (map fst kvs)"
    using dedup_articles_distinct[OF assms(1)] by simp
  ultimately have "distinct (map dedup_key (map snd kvs))" by (simp only:)
  then have "distinct (map dedup_key ys)" unfolding ys by (rule desc_sort_distinct_map)
  with set ent show ?thesis by auto
qed

lemma carried_forward_cases:
  assumes "carried_forward e = Inr as"
  obtains xs where "existing_articles e = Inr (JList xs)"
    "if prune e then prune_articles (map doc_name (docx_files e)) xs = Inr as else as = xs"
proof -
  from assms obtain v where v: "existing_articles e = Inr v"
    and rest: "(case v of
         JList as \<Rightarrow>
           if prune e then lift_exn (prune_articles (map doc_name (docx_files e)) as)
           else Inr as
       | _ \<Rightarrow> Inl Outside_model) = Inr as"
    by (auto simp: carried_forward_def and_then_eq_Inr)
  from rest obtain xs where xs: "v = JList xs" by (cases v) auto
  with rest have "if prune e then prune_articles (map doc_name (docx_files e)) xs = Inr as
     else as = xs"
    by (auto split: if_splits)
  with v xs show ?thesis by (intro that[of xs]) auto
qed

lemma carried_forward_pruned:
  assumes "carried_forward e = Inr as" and "prune e" and "a \<in> set as"
    and "truthy (source_file a)"
  shows "in_folder (map doc_name (docx_files e)) a"
  using assms(1)
proof (cases rule: carried_forward_cases)
  case (1 xs)
  with assms(2) have "prune_articles (map doc_name (docx_files e)) xs = Inr as" by simp
  from prune_articles_filter[OF this] assms(3,4) show ?thesis by auto
qed

lemma storable_obj: "storable a \<Longrightarrow> is_obj a"
  by (simp add: storable_def)

lemma storable_truthy: "storable a \<Longrightarrow> truthy (source_file a)"
  by (simp add: storable_def)

lemma keyed_in_folder: "d \<in> set ds \<Longrightarrow> keyed (doc_name d) a \<Longrightarrow> in_folder (map doc_name ds) a"
  by (auto simp: in_folder_def keyed_def)

lemma existing_articles_next_run:
  assumes "out_json_written r = JObj [(''generatedAt'', g), (''articles'', JList ys), (''errors'', es)]"
  shows "existing_articles (next_run e r clock) = Inr (JList ys)"
  using assms
  by (simp add: existing_articles_def next_run_def load_json_def has_articles_def)

lemma initial_state_next_run:
  "initial_state (next_run e r clock) as
     = \<lparr>state = state_written r, articles = as, errors = [], missing_date_rows = [],
        processed = 0, updated = 0, calls = []\<rparr>"
  by (simp add: initial_state_def next_run_def load_json_def)

lemma main_next_run:
  assumes "main e = Inr r" and "distinct (map doc_name (docx_files e))"
  shows "main (next_run e r clock)
     = Inr \<lparr>out_json_written =
              JObj [(''generatedAt'', JStr clock),
                    (''articles'', JList (articles_of (out_json_written r))),
                    (''errors'', JList [])],
            state_written = state_written r,
            missing_csv_written = [csv_header],
            exit_status = 0, summary_processed = 0, summary_updated = 0, trace = []\<rparr>"
  using assms(1)
proof (cases rule: main_cases)
  case (1 as st kvs ys)
  let ?e = "next_run e r clock"
  let ?names = "map doc_name (docx_files e)"
  note fin = final_articles[OF 1(6,7)]
  have ys: "articles_of (out_json_written r) = ys" by (simp add: 1(8))
  have conf: "folder_exists ?e" "api_key ?e \<noteq> []" "openai_installed ?e"
    "docx_files ?e = docx_files e" "resume ?e" "prune ?e = prune e" "finish_clock ?e = clock"
    using 1(1-3) by (simp_all add: next_run_def)
  have pr: "prune_articles ?names ys = Inr ys" if "prune e"
  proof (rule prune_articles_identity, intro ballI conjI)
    fix a assume a: "a \<in> set ys"
    with fin show "is_obj a" by (auto dest: storable_obj)
    from a fin have mem: "a \<in> set (articles st)" and tr: "truthy (source_file a)"
      by (auto dest: storable_truthy)
    from loop_provenance[OF 1(5) mem]
    show "in_folder ?names a"
    proof
      assume "a \<in> set (articles (initial_state e as))"
      then have "a \<in> set as" by (simp add: initial_state_def)
      from carried_forward_pruned[OF 1(4) that this tr] show ?thesis .
    next
      assume "\<exists>d \<in> set (docx_files e). keyed (doc_name d) a"
      then show ?thesis by (auto intro: keyed_in_folder)
    qed
  qed
  have cf: "carried_forward ?e = Inr ys"
    using existing_articles_next_run[OF 1(8), of e clock] pr
    by (cases "prune e") (simp_all add: carried_forward_def conf lift_exn_def)
  let ?init = "initial_state ?e ys"
  have init: "?init = \<lparr>state = state st, articles = ys, errors = [], missing_date_rows = [],
        processed = 0, updated = 0, calls = []\<rparr>"
    by (simp add: initial_state_next_run 1(9))
  have "\<forall>d \<in> set (docx_files e). unchanged True (state ?init) d"
    using loop_fingerprints[OF 1(5) assms(2)] by (simp add: init unchanged_def)
  then have loop: "process_all True (docx_files e) ?init = Inr ?init"
    by (rule loop_skip_all)
  have dd: "dedup_articles ys [] = Inr (map (\<lambda>a. (dedup_key a, a)) ys)"
    using dedup_articles_identity[of ys "[]"] fin by simp
  have so: "sort_articles ys = Inr ys"
    using 1(7) by (rule sort_articles_again)
  have "map snd (map (\<lambda>a. (dedup_key a, a)) ys) = ys" by (simp add: comp_def)
  with cf loop dd so show ?thesis
    by (simp add: main_def conf ys init lift_exn_def 1(9))
qed

lemma main_final_keyed:
  assumes "main e = Inr r" and "carried_forward e = Inr as" and "n \<noteq> []"
    and "\<forall>d \<in> set (docx_files e). doc_name d = n \<longrightarrow>
           word_count (extract_text d) = 0 \<or> (\<exists>x. article_for d = Inl x)"
  shows "filter (keyed n) (articles_of (out_json_written r))
       = (case filter (keyed n) as of [] \<Rightarrow> [] | xs \<Rightarrow> [last xs])"
  using assms(1)
proof (cases rule: main_cases)
  case (1 as' st kvs ys)
  with assms(2) have [simp]: "as' = as" by simp
  from loop_keyed[OF 1(5) assms(4)]
  have "filter (keyed n) (articles st) = filter (keyed n) as"
    by (simp add: initial_state_def)
  with final_keyed[OF 1(6,7) assms(3)] show ?thesis by (simp add: 1(8))
qed

lemma main_fingerprints:
  assumes "main e = Inr r" and "distinct (map doc_name (docx_files e))"
    and "d \<in> set (docx_files e)"
  shows "fingerprint (state_written r) (doc_name d) = Inr (JStr (doc_hash d))"
  using assms(1)
proof (cases rule: main_cases)
  case (1 as st kvs ys)
  from loop_fingerprints[OF 1(5) assms(2,3)] show ?thesis by (simp add: 1(9))
qed

subsection \<open>Rows of the missing-date report\<close>

lemma loop_rows:
  assumes "process_all r ds st = Inr st'" and "distinct (map doc_name ds)"
    and "\<forall>d \<in> set ds. Infer (doc_name d) \<notin> set (calls st)"
    and "\<forall>a \<in> set (articles st'). is_obj a"
  shows "missing_date_rows st'
     = missing_date_rows st
       @ concat (map (\<lambda>d. if Infer (doc_name d) \<in> set (calls st')
                           then (case article_for d of Inr a \<Rightarrow> missing_row d a | Inl _ \<Rightarrow> [])
                           else []) ds)"
  using assms
proof (induction ds arbitrary: st)
  case Nil
  then show ?case by simp
next
  case (Cons d ds)
  let ?F = "\<lambda>d. if Infer (doc_name d) \<in> set (calls st')
              then (case article_for d of Inr a \<Rightarrow> missing_row d a | Inl _ \<Rightarrow> [])
              else []"
  from Cons.prems(1) obtain st1 where
    1: "process_document r st d = Inr st1" and 2: "process_all r ds st1 = Inr st'"
    by (auto simp: and_then_eq_Inr)
  from Cons.prems(2) have fresh: "doc_name d \<notin> doc_name ` set ds" and dist: "distinct (map doc_name ds)"
    by simp_all
  have tail_clean: "\<forall>d' \<in> set ds. Infer (doc_name d') \<notin> set (calls st1)"
  proof
    fix d' assume d': "d' \<in> set ds"
    then have "doc_name d' \<in> doc_name ` set ds" by (rule imageI)
    with fresh have "doc_name d' \<noteq> doc_name d" by metis
    with step_calls_other[OF 1] Cons.prems(3) d' show "Infer (doc_name d') \<notin> set (calls st1)"
      by simp
  qed
  from Cons.IH[OF 2 dist tail_clean Cons.prems(4)]
  have tail: "missing_date_rows st' = missing_date_rows st1 @ concat (map ?F ds)" .
  have obj1: "\<forall>a \<in> set (articles st1). is_obj a"
    using loop_obj_back[OF 2 Cons.prems(4)] .
  then have obj: "\<forall>a \<in> set (articles st). is_obj a"
    using step_obj_back[OF 1] by blast
  have called: "Infer (doc_name d) \<in> set (calls st') \<longleftrightarrow> Infer (doc_name d) \<in> set (calls st1)"
    using loop_calls_other[OF 2 fresh] by simp
  have clean: "Infer (doc_name d) \<notin> set (calls st)"
    using Cons.prems(3) by simp
  from 1 have head: "missing_date_rows st1 = missing_date_rows st @ ?F d"
  proof (cases rule: process_document_cases)
    case skipped
    with called clean show ?thesis by simp
  next
    case content_free
    with called clean show ?thesis by simp
  next
    case (failed x)
    from find_entry_all_obj[OF obj, of "doc_name d" 0] failed(3)
    have "article_for d = Inl x" by auto
    with failed called show ?thesis by simp
  next
    case (stored a i)
    with called show ?thesis by simp
  qed
  with tail show ?case by simp
qed

lemma main_rows:
  assumes "main e = Inr r" and "distinct (map doc_name (docx_files e))"
  shows "missing_csv_written r
     = csv_header
       # concat (map (\<lambda>d. if Infer (doc_name d) \<in> set (trace r)
                           then (case article_for d of Inr a \<Rightarrow> missing_row d a | Inl _ \<Rightarrow> [])
                           else []) (docx_files e))"
  using assms(1)
proof (cases rule: main_cases)
  case (1 as st kvs ys)
  have "\<forall>a \<in> set (articles st). is_obj a"
    using dedup_articles_all_obj[OF 1(6)] .
  from loop_rows[OF 1(5) assms(2) _ this] show ?thesis
    by (simp add: 1(10) 1(14) initial_state_def)
qed

lemma main_error_recorded:
  assumes "main e = Inr r" and "distinct (map doc_name (docx_files e))"
    and "d \<in> set (docx_files e)" and "Infer (doc_name d) \<in> set (trace r)"
    and "article_for d = Inl x"
  shows "error_record (doc_name d) x \<in> set (errors_of (out_json_written r))"
  using assms(1)
proof (cases rule: main_cases)
  case (1 as st kvs ys)
  have "Infer (doc_name d) \<notin> set (calls (initial_state e as))"
    by (simp add: initial_state_def)
  from loop_error_recorded[OF 1(5) assms(2,3) this _ assms(5)] assms(4)
  show ?thesis by (simp add: 1(8) 1(14))
qed

lemma main_no_inference:
  assumes "main e = Inr r" and "distinct (map doc_name (docx_files e))"
    and "d \<in> set (docx_files e)" and "word_count (extract_text d) = 0"
  shows "Infer (doc_name d) \<notin> set (trace r)"
  using assms(1)
proof (cases rule: main_cases)
  case (1 as st kvs ys)
  show ?thesis
  proof
    assume "Infer (doc_name d) \<in> set (trace r)"
    then have "Infer (doc_name d) \<in> set (calls st)" by (simp add: 1(14))
    from loop_infer_called[OF 1(5) this]
    obtain d' where d': "d' \<in> set (docx_files e)" "doc_name d' = doc_name d"
      "0 < word_count (extract_text d')"
      by (auto simp: initial_state_def)
    from assms(2,3) d'(1,2) have "d' = d"
      by (auto simp: distinct_map dest: inj_onD)
    with d'(3) assms(4) show False by simp
  qed
qed

lemma main_in_folder:
  assumes "main e = Inr r" and "prune e" and "a \<in> set (articles_of (out_json_written r))"
  shows "in_folder (map doc_name (docx_files e)) a"
  using assms(1)
proof (cases rule: main_cases)
  case (1 as st kvs ys)
  note fin = final_articles[OF 1(6,7)]
  from assms(3) have a: "a \<in> set ys" by (simp add: 1(8))
  with fin have mem: "a \<in> set (articles st)" and tr: "truthy (source_file a)"
    by (auto dest: storable_truthy)
  from loop_provenance[OF 1(5) mem] show ?thesis
  proof
    assume "a \<in> set (articles (initial_state e as))"
    then have "a \<in> set as" by (simp add: initial_state_def)
    from carried_forward_pruned[OF 1(4) assms(2) this tr] show ?thesis .
  next
    assume "\<exists>d \<in> set (docx_files e). keyed (doc_name d) a"
    then show ?thesis by (auto intro: keyed_in_folder)
  qed
qed

lemma main_distinct_keys:
  assumes "main e = Inr r"
  shows "(\<forall>a \<in> set (articles_of (out_json_written r)). storable a)
       \<and> distinct (map dedup_key (articles_of (out_json_written r)))"
  using assms
proof (cases rule: main_cases)
  case (1 as st kvs ys)
  from final_articles[OF 1(6,7)] show ?thesis by (simp add: 1(8))
qed

lemma storable_same_source:
  assumes "storable a" and "storable b" and "source_file a = source_file b"
  shows "dedup_key a = dedup_key b"
  using assms by (simp add: dedup_key_def)

lemma distinct_source_files:
  assumes "\<forall>a \<in> set ys. storable a" and "distinct (map dedup_key ys)"
  shows "distinct (map source_file ys)"
proof -
  from assms(2) have d: "distinct ys" and inj: "inj_on dedup_key (set ys)"
    by (auto simp: distinct_map)
  have "inj_on source_file (set ys)"
  proof (rule inj_onI)
    fix a b assume "a \<in> set ys" "b \<in> set ys" "source_file a = source_file b"
    with assms(1) have "dedup_key a = dedup_key b" by (auto intro: storable_same_source)
    with inj \<open>a \<in> set ys\<close> \<open>b \<in> set ys\<close> show "a = b" by (auto dest: inj_onD)
  qed
  with d show ?thesis by (simp add: distinct_map)
qed




lemma empty_extraction_has_no_words:
  assumes "pandoc_out d = []" and "fallback_out d = []"
  shows "word_count (extract_text d) = 0"
  using assms by (simp add: extract_text_def str_or_def normalize_whitespace_def replace_cr_def strip_def)

subsection \<open>The loop does not abort on a reply\<close>

lemma state_ok_fingerprint: "state_ok s \<longleftrightarrow> (\<exists>v. fingerprint s n = Inr v)"
proof (cases s)
  case (JObj kvs)
  show ?thesis
  proof (cases "map_of kvs ''files''")
    case None
    with JObj show ?thesis by (simp add: state_ok_def fingerprint_def)
  next
    case (Some f)
    with JObj show ?thesis by (cases f) (simp_all add: state_ok_def fingerprint_def)
  qed
qed (simp_all add: state_ok_def fingerprint_def)

lemma fingerprint_state_ok: "fingerprint s n = Inr v \<Longrightarrow> state_ok s"
  using state_ok_fingerprint[of s n] by blast

lemma state_ok_lookup: "state_ok s \<Longrightarrow> \<exists>v. fingerprint s n = Inr v"
  using state_ok_fingerprint[of s n] by blast

lemma state_ok_set_fingerprint:
  assumes "state_ok s"
  shows "\<exists>s'. set_fingerprint s n h = Inr s' \<and> state_ok s'"
proof -
  from assms obtain kvs where s: "s = JObj kvs" by (cases s) (auto simp: state_ok_def)
  show ?thesis
  proof (cases "map_of kvs ''files''")
    case None
    with s show ?thesis by (simp add: set_fingerprint_def state_ok_def update_conv')
  next
    case (Some f)
    with assms s obtain files where "f = JObj files"
      by (cases f) (auto simp: state_ok_def)
    with Some s show ?thesis by (simp add: set_fingerprint_def state_ok_def update_conv')
  qed
qed

lemma try_block_state:
  assumes "try_block d body wc g st = Inr st'"
  shows "state st' = state st"
  using assms by (auto simp: try_block_def and_then_eq_Inr)

lemma try_block_failed:
  assumes "article_for d = Inl x"
  shows "try_block d (extract_text d) (word_count (extract_text d))
           (date_guess_of (doc_name d) (extract_text d)) st = Inl x"
  using assms by (simp add: try_block_def article_for_def)

lemma step_failed:
  assumes "fingerprint (state st) (doc_name d) = Inr v"
    and "\<not> unchanged r (state st) d" and "0 < word_count (extract_text d)"
    and "article_for d = Inl x"
  shows "\<exists>s. set_fingerprint (state st) (doc_name d) (doc_hash d) = Inr s
           \<and> state_ok s
           \<and> process_document r st d = Inr (after_failure st d x s)"
proof -
  from assms(1) have "state_ok (state st)" by (rule fingerprint_state_ok)
  from state_ok_set_fingerprint[OF this] obtain s where
    s: "set_fingerprint (state st) (doc_name d) (doc_hash d) = Inr s" "state_ok s" by blast
  from assms(1,2) have nskip: "\<not> (r \<and> v = JStr (doc_hash d))"
    by (auto simp: unchanged_def)
  have "process_document r st d = Inr (after_failure st d x s)"
    using assms(1,3) nskip s(1) try_block_failed[OF assms(4)]
    by (auto simp: process_document_def Let_def after_failure_def)
  with s show ?thesis by blast
qed

lemma step_total:
  assumes "state_ok (state st)"
  shows "\<exists>st'. process_document r st d = Inr st' \<and> state_ok (state st')"
proof -
  let ?n = "doc_name d" and ?h = "doc_hash d"
  from state_ok_lookup[OF assms] obtain v where v: "fingerprint (state st) ?n = Inr v"
    by blast
  from state_ok_set_fingerprint[OF assms] obtain s where
    s: "set_fingerprint (state st) ?n ?h = Inr s" "state_ok s" by blast
  show ?thesis
  proof (cases "r \<and> v = JStr ?h")
    case True
    with v assms show ?thesis by (simp add: process_document_def)
  next
    case nskip: False
    show ?thesis
    proof (cases "word_count (extract_text d) = 0")
      case True
      with v nskip s show ?thesis by (auto simp: process_document_def Let_def)
    next
      case wc: False
      let ?st2 = "st\<lparr>calls := calls st @ [Extract ?n, Infer ?n]\<rparr>"
      let ?tb = "try_block d (extract_text d) (word_count (extract_text d))
                   (date_guess_of ?n (extract_text d)) ?st2"
      show ?thesis
      proof (cases ?tb)
        case (Inl x)
        with v nskip wc s show ?thesis by (auto simp: process_document_def Let_def)
      next
        case (Inr st3)
        from try_block_state[OF Inr] have "state st3 = state st" by simp
        with Inr v nskip wc s show ?thesis by (auto simp: process_document_def Let_def)
      qed
    qed
  qed
qed

lemma loop_total:
  assumes "state_ok (state st)"
  shows "\<exists>st'. process_all r ds st = Inr st' \<and> state_ok (state st')"
  using assms
proof (induction ds arbitrary: st)
  case Nil
  then show ?case by simp
next
  case (Cons d ds)
  from step_total[OF Cons.prems, of r d] obtain st1 where
    1: "process_document r st d = Inr st1" "state_ok (state st1)" by blast
  from Cons.IH[OF 1(2)] 1(1) show ?case by simp
qed

subsection \<open>The run does not abort on a reply\<close>

lemma infer_article_ok:
  assumes "infer_article d body wc g = Inr a"
  shows "article_ok a"
proof -
  from assms obtain title date_ai summary topics where
    a: "a = JObj
         [(''sourceFile'', JStr (doc_name d)),
          (''title'', JStr title),
          (''date'', JStr (final_date_of g date_ai)),
          (''dateISO'', JStr (final_date_of g date_ai)),
          (''dateSource'', JStr (date_source_of g date_ai)),
          (''summary'', JStr summary),
          (''topics'', JList topics),
          (''wordCount'', JInt (int wc)),
          (''text'', JStr body),
          (''updatedAt'', JStr (doc_clock d))]"
    by (auto simp: infer_article_def and_then_eq_Inr split: sum.splits prod.splits)
  have "sort_key_of a \<noteq> None"
    by (simp add: a sort_key_of_def py_get_def or_empty_def)
  moreover have "source_file a = JStr (doc_name d)"
    by (simp add: a source_file_def py_get_def)
  moreover have "is_obj a" by (simp add: a)
  ultimately show ?thesis
    by (simp add: article_ok_def storable_def dedup_key_def hash_key_def)
qed

lemma step_articles_ok:
  assumes "process_document r st d = Inr st'" and "list_all article_ok (articles st)"
  shows "list_all article_ok (articles st')"
  using assms
proof (cases rule: process_document_cases)
  case (stored a i)
  from stored(3) have "article_ok a" by (auto simp: article_for_def dest: infer_article_ok)
  with assms(2) stored(6) set_upsert_subset[of "articles st" i a] show ?thesis
    by (auto simp: list_all_iff)
qed auto

lemma loop_articles_ok:
  assumes "process_all r ds st = Inr st'" and "list_all article_ok (articles st)"
  shows "list_all article_ok (articles st')"
  using assms
proof (induction ds arbitrary: st)
  case Nil
  then show ?case by simp
next
  case (Cons d ds)
  from Cons.prems(1) obtain st1 where
    1: "process_document r st d = Inr st1" and 2: "process_all r ds st1 = Inr st'"
    by (auto simp: and_then_eq_Inr)
  from Cons.IH[OF 2 step_articles_ok[OF 1 Cons.prems(2)]] show ?case .
qed

lemma dedup_articles_total:
  assumes "list_all article_ok as"
  shows "\<exists>kvs. dedup_articles as acc = Inr kvs"
  using assms
proof (induction as arbitrary: acc)
  case Nil
  then show ?case by simp
next
  case (Cons a as)
  from Cons.prems have a: "article_ok a" and rest: "list_all article_ok as" by simp_all
  from a have "is_obj a" "truthy (source_file a) \<longrightarrow> storable a"
    by (auto simp: article_ok_def)
  with Cons.IH[OF rest, of acc] Cons.IH[OF rest, of "AList.update (dedup_key a) a acc"]
  show ?case by (cases "truthy (source_file a)") (simp_all add: dedup_articles_step)
qed

lemma sort_articles_total:
  assumes "list_all article_ok xs"
  shows "\<exists>ys. sort_articles xs = Inr ys"
proof -
  from assms have "list_all (\<lambda>x. sort_key_of x \<noteq> None) xs"
    by (auto simp: list_all_iff article_ok_def)
  then show ?thesis by (simp add: sort_articles_def)
qed

lemma main_total:
  assumes "folder_exists e" and "api_key e \<noteq> []" and "openai_installed e"
    and "carried_forward e = Inr as" and "list_all article_ok as"
    and "state_ok (state (initial_state e as))"
  shows "\<exists>r. main e = Inr r"
proof -
  from loop_total[OF assms(6), of "resume e" "docx_files e"] obtain st where
    st: "process_all (resume e) (docx_files e) (initial_state e as) = Inr st" by blast
  have "list_all article_ok (articles (initial_state e as))"
    using assms(5) by (simp add: initial_state_def)
  from loop_articles_ok[OF st this] have ok: "list_all article_ok (articles st)" .
  from dedup_articles_total[OF ok, of "[]"] obtain kvs where
    kvs: "dedup_articles (articles st) [] = Inr kvs" by blast
  have "set (map snd kvs) \<subseteq> set (articles st)"
    using dedup_articles_entries[OF kvs] by auto
  with ok have "list_all article_ok (map snd kvs)" by (auto simp: list_all_iff)
  from sort_articles_total[OF this] obtain ys where
    ys: "sort_articles (map snd kvs) = Inr ys" by blast
  from assms(1-4) st kvs ys show ?thesis
    by (simp add: main_def lift_exn_def)
qed

subsection \<open>Evaluations on the concrete inputs\<close>

lemma main_w_env: "main w_env = Inr w_result"
  by code_simp

lemma main_w_second: "main (next_run w_env w_result ''t9'') = Inr w_second"
  by code_simp

lemma w_env_listing: "distinct (map doc_name (docx_files w_env))"
  by code_simp

lemma w_env_carried: "carried_forward w_env = Inr [w_stale]"
  by code_simp

lemma main_c4_env: "main c4_env = Inr c4_result"
  by code_simp


lemma dedup_example:
  "dedup_articles [w_stale, w_article, w_dup] []
     = Inr [(KStr ''b.docx'', w_dup), (KStr ''a.docx'', w_article)]"
  by code_simp

lemma prune_example:
  "prune_articles [''a.docx'', ''b.docx'', ''c.docx''] [w_gone, w_stale] = Inr [w_stale]"
  by code_simp

lemma w_bad_fails: "article_for w_bad = Inl (ServiceError ''boom'')"
  by code_simp

lemma w_bad_lookup:
  "fingerprint (state (initial_state w_env [w_stale])) (doc_name w_bad) = Inr (JStr ''h0'')"
  by code_simp

lemma w_bad_changed: "\<not> unchanged (resume w_env) (state (initial_state w_env [w_stale])) w_bad"
  by code_simp

lemma w_bad_words: "0 < word_count (extract_text w_bad)"
  by code_simp

lemma w_env_state_ok: "state_ok (state (initial_state w_env [w_stale]))"
  by code_simp

lemma w_env_articles_ok: "list_all article_ok [w_stale]"
  by code_simp

section \<open>Idempotence of a second run\<close>

text \<open>
  C1, as the spec states it, fails: the collection a second incremental run writes
  need not equal the first run's. On the concrete folder below the first run records
  one inference error; the second run, over the unchanged folder and with the same
  clock reading, writes an empty error list.
\<close>

theorem rerun_output_differs:
  "main w_env = Inr w_result
   \<and> main (next_run w_env w_result ''t9'') = Inr w_second
   \<and> finish_clock w_env = ''t9''
   \<and> out_json_written w_second \<noteq> out_json_written w_result"
  using main_w_env main_w_second
  by (simp add: w_env_def w_second_def w_result_def)

text \<open>
  C1, amended: a second run in incremental mode over the unchanged folder, started
  from the files the first run wrote, makes no outside call and no update (exit
  status 0), and writes the same Articles in the same order and the same fingerprint
  state. The collection it writes is the first run's with \<open>generatedAt\<close> set to the new
  clock reading and \<open>errors\<close> emptied, so it equals the first run's when that run
  recorded no error and the clock reads the same.
\<close>

theorem rerun_repeats_articles_and_state:
  assumes "main e = Inr r" and "distinct (map doc_name (docx_files e))"
  shows "\<exists>r2. main (next_run e r clock) = Inr r2
     \<and> trace r2 = [] \<and> summary_updated r2 = 0 \<and> summary_processed r2 = 0 \<and> exit_status r2 = 0
     \<and> articles_of (out_json_written r2) = articles_of (out_json_written r)
     \<and> state_written r2 = state_written r
     \<and> out_json_written r2
         = JObj [(''generatedAt'', JStr clock),
                 (''articles'', JList (articles_of (out_json_written r))),
                 (''errors'', JList [])]
     \<and> (clock = finish_clock e \<and> errors_of (out_json_written r) = []
          \<longrightarrow> out_json_written r2 = out_json_written r)"
proof -
  let ?r2 = "\<lparr>out_json_written =
              JObj [(''generatedAt'', JStr clock),
                    (''articles'', JList (articles_of (out_json_written r))),
                    (''errors'', JList [])],
            state_written = state_written r,
            missing_csv_written = [csv_header],
            exit_status = 0, summary_processed = 0, summary_updated = 0, trace = []\<rparr>"
  have run: "main (next_run e r clock) = Inr ?r2"
    using assms by (rule main_next_run)
  have same: "out_json_written ?r2 = out_json_written r"
    if "clock = finish_clock e" "errors_of (out_json_written r) = []"
    using assms(1)
  proof (cases rule: main_cases)
    case (1 as st kvs ys)
    with that show ?thesis by simp
  qed
  show ?thesis
    by (rule exI[of _ ?r2]) (use run same in simp)
qed

theorem rerun_repeats_articles_and_state_witness:
  "main w_env = Inr w_result \<and> distinct (map doc_name (docx_files w_env))
   \<and> (\<exists>r2. main (next_run w_env w_result ''t9'') = Inr r2 \<and> trace r2 = []
          \<and> articles_of (out_json_written r2) = articles_of (out_json_written w_result)
          \<and> state_written r2 = state_written w_result)"
  using rerun_repeats_articles_and_state[OF main_w_env w_env_listing, of "''t9''"]
    main_w_env w_env_listing
  by blast

section \<open>A failed inference call\<close>

text \<open>
  C2: an exception raised by the inference call for a document, or by the handling of
  its reply, is caught and processing continues. In the loop, the iteration for such
  a document returns normally, with the file name and message appended to the error
  list, the Articles untouched and the current fingerprint stored, and the loop goes
  on with the next document from that state; the loop, and the run, finish whatever
  the replies are. In a finished run where the call for the document was made and
  raised: the record is in the written error list; the Articles of that source file in
  the written collection are what the carried-forward collection had (the last one,
  if any: nothing is created or replaced); every document of the folder, this one
  included, has its current fingerprint stored; and the next incremental run over the
  unchanged folder makes no outside call at all, records no error and writes the same
  Articles.
\<close>

theorem inference_failure_recorded_and_fingerprinted:
  "(fingerprint (state st) (doc_name d) = Inr v \<and> \<not> unchanged resuming (state st) d
      \<and> 0 < word_count (extract_text d) \<and> article_for d = Inl x \<longrightarrow>
      (\<exists>s. set_fingerprint (state st) (doc_name d) (doc_hash d) = Inr s
         \<and> process_document resuming st d = Inr (after_failure st d x s)
         \<and> errors (after_failure st d x s) = errors st @ [error_record (doc_name d) x]
         \<and> articles (after_failure st d x s) = articles st
         \<and> fingerprint (state (after_failure st d x s)) (doc_name d) = Inr (JStr (doc_hash d))
         \<and> process_all resuming (d # ds) st = process_all resuming ds (after_failure st d x s)
         \<and> (\<exists>st'. process_all resuming (d # ds) st = Inr st')))
   \<and> (folder_exists e \<and> api_key e \<noteq> [] \<and> openai_installed e
        \<and> carried_forward e = Inr as \<and> list_all article_ok as
        \<and> state_ok (state (initial_state e as)) \<longrightarrow>
      (\<exists>r. main e = Inr r))
   \<and> (main e = Inr r \<and> carried_forward e = Inr as
        \<and> distinct (map doc_name (docx_files e)) \<and> d \<in> set (docx_files e)
        \<and> doc_name d \<noteq> []
        \<and> Infer (doc_name d) \<in> set (trace r) \<and> article_for d = Inl x \<longrightarrow>
      error_record (doc_name d) x \<in> set (errors_of (out_json_written r))
      \<and> filter (keyed (doc_name d)) (articles_of (out_json_written r))
          = (case filter (keyed (doc_name d)) as of [] \<Rightarrow> [] | xs \<Rightarrow> [last xs])
      \<and> (\<forall>d' \<in> set (docx_files e).
            fingerprint (state_written r) (doc_name d') = Inr (JStr (doc_hash d')))
      \<and> (\<exists>r2. main (next_run e r clock) = Inr r2 \<and> trace r2 = []
            \<and> errors_of (out_json_written r2) = []
            \<and> articles_of (out_json_written r2) = articles_of (out_json_written r)))"
proof (intro conjI impI)
  assume "fingerprint (state st) (doc_name d) = Inr v \<and> \<not> unchanged resuming (state st) d
      \<and> 0 < word_count (extract_text d) \<and> article_for d = Inl x"
  then have h: "fingerprint (state st) (doc_name d) = Inr v"
    "\<not> unchanged resuming (state st) d" "0 < word_count (extract_text d)"
    "article_for d = Inl x" by simp_all
  from step_failed[OF h] obtain s where
    s: "set_fingerprint (state st) (doc_name d) (doc_hash d) = Inr s" "state_ok s"
    and step: "process_document resuming st d = Inr (after_failure st d x s)" by blast
  have "state_ok (state (after_failure st d x s))" using s(2) by (simp add: after_failure_def)
  from loop_total[OF this, of resuming ds] obtain st' where
    "process_all resuming ds (after_failure st d x s) = Inr st'" by blast
  with step have fin: "\<exists>st'. process_all resuming (d # ds) st = Inr st'" by simp
  have "fingerprint (state (after_failure st d x s)) (doc_name d) = Inr (JStr (doc_hash d))"
    using set_fingerprint_same[OF s(1)] by (simp add: after_failure_def)
  with s(1) step fin
  show "\<exists>s. set_fingerprint (state st) (doc_name d) (doc_hash d) = Inr s
         \<and> process_document resuming st d = Inr (after_failure st d x s)
         \<and> errors (after_failure st d x s) = errors st @ [error_record (doc_name d) x]
         \<and> articles (after_failure st d x s) = articles st
         \<and> fingerprint (state (after_failure st d x s)) (doc_name d) = Inr (JStr (doc_hash d))
         \<and> process_all resuming (d # ds) st = process_all resuming ds (after_failure st d x s)
         \<and> (\<exists>st'. process_all resuming (d # ds) st = Inr st')"
    by (intro exI[of _ s]) (simp add: after_failure_def)
next
  assume "folder_exists e \<and> api_key e \<noteq> [] \<and> openai_installed e
        \<and> carried_forward e = Inr as \<and> list_all article_ok as
        \<and> state_ok (state (initial_state e as))"
  then show "\<exists>r. main e = Inr r" by (auto intro: main_total)
next
  assume "main e = Inr r \<and> carried_forward e = Inr as
        \<and> distinct (map doc_name (docx_files e)) \<and> d \<in> set (docx_files e)
        \<and> doc_name d \<noteq> []
        \<and> Infer (doc_name d) \<in> set (trace r) \<and> article_for d = Inl x"
  then have assms: "main e = Inr r" "carried_forward e = Inr as"
    "distinct (map doc_name (docx_files e))" "d \<in> set (docx_files e)"
    "doc_name d \<noteq> []" "Infer (doc_name d) \<in> set (trace r)" "article_for d = Inl x"
    by simp_all
  show "error_record (doc_name d) x \<in> set (errors_of (out_json_written r))"
    using assms(1,3,4,6,7) by (rule main_error_recorded)
  have only: "\<forall>d' \<in> set (docx_files e). doc_name d' = doc_name d \<longrightarrow>
           word_count (extract_text d') = 0 \<or> (\<exists>x. article_for d' = Inl x)"
  proof (intro ballI impI)
    fix d' assume "d' \<in> set (docx_files e)" "doc_name d' = doc_name d"
    with assms(3,4) have "d' = d" by (auto simp: distinct_map dest: inj_onD)
    with assms(7) show "word_count (extract_text d') = 0 \<or> (\<exists>x. article_for d' = Inl x)"
      by auto
  qed
  show "filter (keyed (doc_name d)) (articles_of (out_json_written r))
         = (case filter (keyed (doc_name d)) as of [] \<Rightarrow> [] | xs \<Rightarrow> [last xs])"
    using assms(1,2,5) only by (rule main_final_keyed)
  show "\<forall>d' \<in> set (docx_files e).
           fingerprint (state_written r) (doc_name d') = Inr (JStr (doc_hash d'))"
    using assms(1,3) by (auto intro: main_fingerprints)
  show "\<exists>r2. main (next_run e r clock) = Inr r2 \<and> trace r2 = []
           \<and> errors_of (out_json_written r2) = []
           \<and> articles_of (out_json_written r2) = articles_of (out_json_written r)"
    using main_next_run[OF assms(1,3), of clock] by simp
qed

theorem inference_failure_recorded_and_fingerprinted_witness:
  "fingerprint (state (initial_state w_env [w_stale])) (doc_name w_bad) = Inr (JStr ''h0'')
   \<and> \<not> unchanged (resume w_env) (state (initial_state w_env [w_stale])) w_bad
   \<and> 0 < word_count (extract_text w_bad)
   \<and> article_for w_bad = Inl (ServiceError ''boom'')
   \<and> folder_exists w_env \<and> api_key w_env \<noteq> [] \<and> openai_installed w_env
   \<and> carried_forward w_env = Inr [w_stale] \<and> list_all article_ok [w_stale]
   \<and> state_ok (state (initial_state w_env [w_stale]))
   \<and> main w_env = Inr w_result
   \<and> distinct (map doc_name (docx_files w_env)) \<and> w_bad \<in> set (docx_files w_env)
   \<and> doc_name w_bad \<noteq> [] \<and> Infer (doc_name w_bad) \<in> set (trace w_result)
   \<and> (\<exists>s. process_document (resume w_env) (initial_state w_env [w_stale]) w_bad
             = Inr (after_failure (initial_state w_env [w_stale]) w_bad (ServiceError ''boom'') s))
   \<and> (\<exists>st'. process_all (resume w_env) [w_bad, w_empty] (initial_state w_env [w_stale]) = Inr st')
   \<and> (\<exists>r. main w_env = Inr r)
   \<and> error_record (doc_name w_bad) (ServiceError ''boom'')
        \<in> set (errors_of (out_json_written w_result))
   \<and> filter (keyed (doc_name w_bad)) (articles_of (out_json_written w_result)) = [w_stale]
   \<and> fingerprint (state_written w_result) (doc_name w_bad) = Inr (JStr (doc_hash w_bad))"
proof -
  have mem: "w_bad \<in> set (docx_files w_env)" by (simp add: w_env_def)
  have ne: "doc_name w_bad \<noteq> []" by (simp add: w_bad_def)
  have called: "Infer (doc_name w_bad) \<in> set (trace w_result)"
    by (simp add: w_bad_def w_result_def)
  have conf: "folder_exists w_env" "api_key w_env \<noteq> []" "openai_installed w_env"
    by (simp_all add: w_env_def)
  have stale: "filter (keyed (doc_name w_bad)) [w_stale] = [w_stale]" by code_simp
  note inst = inference_failure_recorded_and_fingerprinted
    [of "initial_state w_env [w_stale]" w_bad "JStr ''h0''" "resume w_env" "ServiceError ''boom''"
        "[w_empty]" w_env "[w_stale]" w_result "''t9''"]
  from inst w_bad_lookup w_bad_changed w_bad_words w_bad_fails
  have 1: "\<exists>s. process_document (resume w_env) (initial_state w_env [w_stale]) w_bad
             = Inr (after_failure (initial_state w_env [w_stale]) w_bad (ServiceError ''boom'') s)"
    and 2: "\<exists>st'. process_all (resume w_env) [w_bad, w_empty] (initial_state w_env [w_stale]) = Inr st'"
    by blast+
  from inst conf w_env_carried w_env_articles_ok w_env_state_ok
  have 3: "\<exists>r. main w_env = Inr r" by blast
  from inst main_w_env w_env_carried w_env_listing mem ne called w_bad_fails
  have 4: "error_record (doc_name w_bad) (ServiceError ''boom'')
        \<in> set (errors_of (out_json_written w_result))"
    and 5: "filter (keyed (doc_name w_bad)) (articles_of (out_json_written w_result))
          = (case filter (keyed (doc_name w_bad)) [w_stale] of [] \<Rightarrow> [] | xs \<Rightarrow> [last xs])"
    and 6: "\<forall>d' \<in> set (docx_files w_env).
            fingerprint (state_written w_result) (doc_name d') = Inr (JStr (doc_hash d'))"
    by blast+
  from 5 stale have s5: "filter (keyed (doc_name w_bad)) (articles_of (out_json_written w_result))
      = [w_stale]" by simp
  from 6 mem have s6: "fingerprint (state_written w_result) (doc_name w_bad)
      = Inr (JStr (doc_hash w_bad))" by blast
  from w_bad_lookup w_bad_changed w_bad_words w_bad_fails conf w_env_carried w_env_articles_ok
    w_env_state_ok main_w_env w_env_listing mem ne called 1 2 3 4 s5 s6
  show ?thesis by blast
qed

section \<open>Documents without content\<close>

text \<open>
  C9: for a document whose extracted text has no word (in particular when both
  extractors return the empty string), the run makes no inference call for it; the
  Articles of that source file in the written collection are what the carried-forward
  collection had, so none is added or updated; its current fingerprint is stored; and
  the next incremental run over the unchanged folder calls neither the extractor nor
  the inference service for it.
\<close>

theorem content_free_document_only_fingerprinted:
  assumes "main e = Inr r" and "carried_forward e = Inr as"
    and "distinct (map doc_name (docx_files e))" and "d \<in> set (docx_files e)"
    and "doc_name d \<noteq> []"
    and "pandoc_out d = [] \<and> fallback_out d = [] \<or> word_count (extract_text d) = 0"
  shows "Infer (doc_name d) \<notin> set (trace r)
     \<and> filter (keyed (doc_name d)) (articles_of (out_json_written r))
         = (case filter (keyed (doc_name d)) as of [] \<Rightarrow> [] | xs \<Rightarrow> [last xs])
     \<and> fingerprint (state_written r) (doc_name d) = Inr (JStr (doc_hash d))
     \<and> (\<exists>r2. main (next_run e r clock) = Inr r2
           \<and> Extract (doc_name d) \<notin> set (trace r2) \<and> Infer (doc_name d) \<notin> set (trace r2)
           \<and> articles_of (out_json_written r2) = articles_of (out_json_written r))"
proof (intro conjI)
  from assms(6) have wc: "word_count (extract_text d) = 0"
    by (auto intro: empty_extraction_has_no_words)
  show "Infer (doc_name d) \<notin> set (trace r)"
    using assms(1,3,4) wc by (rule main_no_inference)
  have only: "\<forall>d' \<in> set (docx_files e). doc_name d' = doc_name d \<longrightarrow>
           word_count (extract_text d') = 0 \<or> (\<exists>x. article_for d' = Inl x)"
  proof (intro ballI impI)
    fix d' assume "d' \<in> set (docx_files e)" "doc_name d' = doc_name d"
    with assms(3,4) have "d' = d" by (auto simp: distinct_map dest: inj_onD)
    with wc show "word_count (extract_text d') = 0 \<or> (\<exists>x. article_for d' = Inl x)"
      by simp
  qed
  show "filter (keyed (doc_name d)) (articles_of (out_json_written r))
         = (case filter (keyed (doc_name d)) as of [] \<Rightarrow> [] | xs \<Rightarrow> [last xs])"
    using assms(1,2,5) only by (rule main_final_keyed)
  show "fingerprint (state_written r) (doc_name d) = Inr (JStr (doc_hash d))"
    using assms(1,3,4) by (rule main_fingerprints)
  show "\<exists>r2. main (next_run e r clock) = Inr r2
           \<and> Extract (doc_name d) \<notin> set (trace r2) \<and> Infer (doc_name d) \<notin> set (trace r2)
           \<and> articles_of (out_json_written r2) = articles_of (out_json_written r)"
    using main_next_run[OF assms(1,3), of clock] by simp
qed

theorem content_free_document_only_fingerprinted_witness:
  "main w_env = Inr w_result \<and> carried_forward w_env = Inr [w_stale]
   \<and> distinct (map doc_name (docx_files w_env)) \<and> w_empty \<in> set (docx_files w_env)
   \<and> doc_name w_empty \<noteq> [] \<and> pandoc_out w_empty = [] \<and> fallback_out w_empty = []
   \<and> Infer (doc_name w_empty) \<notin> set (trace w_result)
   \<and> filter (keyed (doc_name w_empty)) (articles_of (out_json_written w_result)) = []
   \<and> fingerprint (state_written w_result) (doc_name w_empty) = Inr (JStr (doc_hash w_empty))"
proof -
  have mem: "w_empty \<in> set (docx_files w_env)" by (simp add: w_env_def)
  have ne: "doc_name w_empty \<noteq> []" by (simp add: w_empty_def)
  have empty: "pandoc_out w_empty = [] \<and> fallback_out w_empty = []" by (simp add: w_empty_def)
  then have hyp: "pandoc_out w_empty = [] \<and> fallback_out w_empty = []
      \<or> word_count (extract_text w_empty) = 0" by simp
  have none: "filter (keyed (doc_name w_empty)) [w_stale] = []" by code_simp
  from content_free_document_only_fingerprinted
         [OF main_w_env w_env_carried w_env_listing mem ne hyp, of "''t9''"]
    main_w_env w_env_carried w_env_listing mem ne empty none
  show ?thesis by simp
qed

section \<open>The missing-date report\<close>

text \<open>
  C3, as the spec states it, fails: the report does not list every Article whose date
  is empty at the end of the run. In the incremental run below every document is
  unchanged and skipped; the collection written still holds the Article of
  \<open>a.docx\<close>, whose date is empty, and the report holds the header alone.
\<close>

theorem report_misses_carried_article:
  "main (next_run w_env w_result ''t9'') = Inr w_second
   \<and> missing_csv_written w_second = [csv_header]
   \<and> w_article \<in> set (articles_of (out_json_written w_second))
   \<and> str_field w_article ''date'' = []"
proof -
  have "missing_csv_written w_second = [csv_header]"
    by (simp add: w_second_def csv_header_def)
  moreover have "w_article \<in> set (articles_of (out_json_written w_second))"
    by (simp add: w_second_def)
  moreover have "str_field w_article ''date'' = []"
    by (simp add: w_article_def str_field_def py_get_def)
  ultimately show ?thesis using main_w_second by simp
qed

text \<open>
  C3, amended: the report written at the end of a run is the header row followed by
  exactly one row (file name, title, word count), in folder order, for every document
  for which this run made the inference call, built an Article from the reply, and
  resolved no date. It is computed from this run alone; Articles carried forward from
  an earlier run contribute no row.
\<close>

theorem report_lists_undated_articles_of_this_run:
  assumes "main e = Inr r" and "distinct (map doc_name (docx_files e))"
  shows "missing_csv_written r
     = csv_header
       # concat (map (\<lambda>d. if Infer (doc_name d) \<in> set (trace r)
                           then (case article_for d of Inr a \<Rightarrow> missing_row d a | Inl _ \<Rightarrow> [])
                           else []) (docx_files e))"
  using assms by (rule main_rows)

theorem report_lists_undated_articles_of_this_run_witness:
  "main w_env = Inr w_result \<and> distinct (map doc_name (docx_files w_env))
   \<and> missing_csv_written w_result
       = csv_header
         # concat (map (\<lambda>d. if Infer (doc_name d) \<in> set (trace w_result)
                             then (case article_for d of Inr a \<Rightarrow> missing_row d a | Inl _ \<Rightarrow> [])
                             else []) (docx_files w_env))"
  using report_lists_undated_articles_of_this_run[OF main_w_env w_env_listing]
    main_w_env w_env_listing
  by blast

section \<open>One Article per source file\<close>

text \<open>
  C5: in the collection a run writes, every Article is a dictionary with a truthy
  \<open>sourceFile\<close>, and no two Articles share a \<open>sourceFile\<close> (neither as JSON values nor
  under Python's equality of dictionary keys). The dedup step keeps one entry per key,
  and the entry kept is the last Article with that key in the in-memory order; every
  Article with a truthy \<open>sourceFile\<close> has its key kept.
\<close>

theorem one_article_per_source_file:
  "(main e = Inr r \<longrightarrow>
      (\<forall>a \<in> set (articles_of (out_json_written r)). storable a)
      \<and> distinct (map dedup_key (articles_of (out_json_written r)))
      \<and> distinct (map source_file (articles_of (out_json_written r))))
   \<and> (dedup_articles as [] = Inr kvs \<longrightarrow>
      distinct (map fst kvs)
      \<and> (\<forall>(k, a) \<in> set kvs.
            a = last (filter (\<lambda>b. truthy (source_file b) \<and> dedup_key b = k) as))
      \<and> (\<forall>b \<in> set as. truthy (source_file b) \<longrightarrow> dedup_key b \<in> fst ` set kvs))"
proof (intro conjI impI)
  assume m: "main e = Inr r"
  from main_distinct_keys[OF m]
  show "\<forall>a \<in> set (articles_of (out_json_written r)). storable a"
    and "distinct (map dedup_key (articles_of (out_json_written r)))"
    by simp_all
  then show "distinct (map source_file (articles_of (out_json_written r)))"
    by (rule distinct_source_files)
next
  assume d: "dedup_articles as [] = Inr kvs"
  show dist: "distinct (map fst kvs)"
    using dedup_articles_distinct[OF d] by simp
  have look: "map_of kvs k =
     (case filter (\<lambda>a. truthy (source_file a) \<and> dedup_key a = k) as of
        [] \<Rightarrow> None | xs \<Rightarrow> Some (last xs))" for k
    using dedup_articles_map_of[OF d, of k] by (simp split: list.splits)
  show "\<forall>(k, a) \<in> set kvs.
            a = last (filter (\<lambda>b. truthy (source_file b) \<and> dedup_key b = k) as)"
  proof (intro ballI, clarify)
    fix k a assume "(k, a) \<in> set kvs"
    with dist have "map_of kvs k = Some a" by simp
    with look[of k] show "a = last (filter (\<lambda>b. truthy (source_file b) \<and> dedup_key b = k) as)"
      by (auto split: list.splits)
  qed
  show "\<forall>b \<in> set as. truthy (source_file b) \<longrightarrow> dedup_key b \<in> fst ` set kvs"
  proof (intro ballI impI)
    fix b assume b: "b \<in> set as" "truthy (source_file b)"
    then have "filter (\<lambda>a. truthy (source_file a) \<and> dedup_key a = dedup_key b) as \<noteq> []"
      by (auto simp: filter_empty_conv)
    with look[of "dedup_key b"] have "map_of kvs (dedup_key b) \<noteq> None"
      by (auto split: list.splits)
    then show "dedup_key b \<in> fst ` set kvs"
      by (auto simp: map_of_eq_None_iff)
  qed
qed

theorem one_article_per_source_file_witness:
  "main w_env = Inr w_result
   \<and> dedup_articles [w_stale, w_article, w_dup] []
       = Inr [(KStr ''b.docx'', w_dup), (KStr ''a.docx'', w_article)]
   \<and> distinct (map source_file (articles_of (out_json_written w_result)))
   \<and> distinct (map fst [(KStr ''b.docx'', w_dup), (KStr ''a.docx'', w_article)])"
  using one_article_per_source_file[of w_env w_result "[w_stale, w_article, w_dup]"
      "[(KStr ''b.docx'', w_dup), (KStr ''a.docx'', w_article)]"]
    main_w_env dedup_example
  by blast

section \<open>Prune\<close>

text \<open>
  C6: when a run with prune enabled writes its collection, the \<open>sourceFile\<close> of every
  Article in it names a file of the current folder listing. The prune step itself
  keeps exactly the Articles without a truthy \<open>sourceFile\<close> and those whose
  \<open>sourceFile\<close> is in the listing, in their order; so no Article whose file is still
  present is removed.
\<close>

theorem prune_removes_only_the_vanished:
  "(main e = Inr r \<and> prune e \<longrightarrow>
      (\<forall>a \<in> set (articles_of (out_json_written r)).
         in_folder (map doc_name (docx_files e)) a))
   \<and> (prune_articles names as = Inr kept \<longrightarrow>
      kept = filter (\<lambda>a. \<not> truthy (source_file a) \<or> in_folder names a) as
      \<and> filter (in_folder names) kept = filter (in_folder names) as
      \<and> (\<forall>a \<in> set as. in_folder names a \<longrightarrow> a \<in> set kept))"
proof (intro conjI impI ballI)
  fix a assume "main e = Inr r \<and> prune e" "a \<in> set (articles_of (out_json_written r))"
  then show "in_folder (map doc_name (docx_files e)) a"
    by (auto intro: main_in_folder)
next
  assume p: "prune_articles names as = Inr kept"
  from prune_articles_filter[OF p]
  show k: "kept = filter (\<lambda>a. \<not> truthy (source_file a) \<or> in_folder names a) as" by simp
  show "filter (in_folder names) kept = filter (in_folder names) as"
    unfolding k by (auto intro: filter_cong)
  fix a assume "a \<in> set as" "in_folder names a"
  then show "a \<in> set kept" unfolding k by simp
qed

theorem prune_removes_only_the_vanished_witness:
  "main w_env = Inr w_result \<and> prune w_env
   \<and> prune_articles [''a.docx'', ''b.docx'', ''c.docx''] [w_gone, w_stale] = Inr [w_stale]
   \<and> articles_of (out_json_written w_result) = [w_stale, w_article]
   \<and> in_folder (map doc_name (docx_files w_env)) w_stale
   \<and> in_folder (map doc_name (docx_files w_env)) w_article
   \<and> filter (in_folder [''a.docx'', ''b.docx'', ''c.docx'']) [w_stale]
       = filter (in_folder [''a.docx'', ''b.docx'', ''c.docx'']) [w_gone, w_stale]"
proof -
  have p: "prune w_env" by (simp add: w_env_def)
  have a: "articles_of (out_json_written w_result) = [w_stale, w_article]"
    by (simp add: w_result_def)
  from prune_removes_only_the_vanished[of w_env w_result "[''a.docx'', ''b.docx'', ''c.docx'']"
      "[w_gone, w_stale]" "[w_stale]"] main_w_env p prune_example a
  show ?thesis by simp
qed

section \<open>Sort order\<close>



section \<open>Fallbacks on the reply\<close>

text \<open>
  C4, as the spec states it, fails for a title that is not a string: a reply whose
  title is the number 42 makes \<open>.strip()\<close> raise, the document fails, and the run
  records the error and writes no Article for it.
\<close>

theorem numeric_title_fails_document:
  "main c4_env = Inr c4_result
   \<and> docx_files c4_env = [c4_doc]
   \<and> reply c4_doc = Inr (JObj [(''title'', JInt 42), (''summary'', JStr ''s'')])
   \<and> article_for c4_doc = Inl (AttributeError c4_message)
   \<and> articles_of (out_json_written c4_result) = []
   \<and> errors_of (out_json_written c4_result)
       = [error_record ''n.docx'' (AttributeError c4_message)]"
proof -
  have "article_for c4_doc = Inl (AttributeError c4_message)" by code_simp
  moreover have "articles_of (out_json_written c4_result) = []"
    by (simp add: c4_result_def)
  moreover have "errors_of (out_json_written c4_result)
       = [error_record ''n.docx'' (AttributeError c4_message)]"
    by (simp add: c4_result_def error_record_def)
  ultimately show ?thesis using main_c4_env by (simp add: c4_env_def c4_doc_def)
qed

text \<open>
  C4, amended: for a reply that is a JSON object in which title, date and summary are
  each absent, falsy (null, false, zero, empty) or a string, reading the fields does
  not fail: the title is the trimmed title string, or the stem of the file name when
  that is empty or the title is absent or falsy; date and summary are the trimmed
  strings, empty when absent or falsy; topics are empty when the field is not a list,
  and otherwise the strings of the list, trimmed, those empty after trimming dropped
  (entries that are not strings are dropped too).
\<close>

theorem reply_fallbacks:
  assumes "str_or_falsy (field kvs ''title'')" and "str_or_falsy (field kvs ''date'')"
    and "str_or_falsy (field kvs ''summary'')"
  shows "response_fields stem (JObj kvs)
     = Inr (if strip (text_of (field kvs ''title'')) = [] then stem
            else strip (text_of (field kvs ''title'')),
            strip (text_of (field kvs ''date'')),
            strip (text_of (field kvs ''summary'')),
            clean_topics (field kvs ''topics''))
     \<and> (\<forall>v. \<not> is_list v \<longrightarrow> clean_topics v = [])
     \<and> (\<forall>ts. clean_topics (JList ts)
              = map JStr (filter (\<lambda>s. s \<noteq> []) (map strip (strings_of ts))))"
proof (intro conjI allI impI)
  have get: "py_get (JObj kvs) k = Inr (field kvs k)" for k
    by (simp add: py_get_def field_def)
  have strip_empty: "strip [] = []" by (simp add: strip_def)
  have oes: "or_empty_strip v = Inr (strip (text_of v))" if "str_or_falsy v" for v
    using that by (cases v) (auto simp: or_empty_strip_def strip_empty)
  show "response_fields stem (JObj kvs)
     = Inr (if strip (text_of (field kvs ''title'')) = [] then stem
            else strip (text_of (field kvs ''title'')),
            strip (text_of (field kvs ''date'')),
            strip (text_of (field kvs ''summary'')),
            clean_topics (field kvs ''topics''))"
    using assms by (simp add: response_fields_def get oes str_or_def)
next
  fix v assume "\<not> is_list v"
  then show "clean_topics v = []"
    by (cases v) (auto simp: clean_topics_def)
next
  fix ts
  have "concat (map clean_topic ts) = map JStr (filter (\<lambda>s. s \<noteq> []) (map strip (strings_of ts)))"
    by (induction ts rule: strings_of.induct) auto
  then show "clean_topics (JList ts)
              = map JStr (filter (\<lambda>s. s \<noteq> []) (map strip (strings_of ts)))"
    by (cases ts) (auto simp: clean_topics_def)
qed

theorem reply_fallbacks_witness:
  "str_or_falsy (field c4_meta ''title'') \<and> str_or_falsy (field c4_meta ''date'')
   \<and> str_or_falsy (field c4_meta ''summary'')
   \<and> response_fields ''stem'' (JObj c4_meta) = Inr (''stem'', [], [], [JStr ''x'', JStr ''y''])"
proof -
  have t: "str_or_falsy (field c4_meta ''title'')" by (simp add: c4_meta_def field_def)
  have d: "str_or_falsy (field c4_meta ''date'')" by (simp add: c4_meta_def field_def)
  have s: "str_or_falsy (field c4_meta ''summary'')" by (simp add: c4_meta_def field_def)
  have v: "(if strip (text_of (field c4_meta ''title'')) = [] then ''stem''
            else strip (text_of (field c4_meta ''title'')),
            strip (text_of (field c4_meta ''date'')),
            strip (text_of (field c4_meta ''summary'')),
            clean_topics (field c4_meta ''topics'')) = (''stem'', [], [], [JStr ''x'', JStr ''y''])"
    by code_simp
  from reply_fallbacks[OF t d s, of "''stem''"] t d s v show ?thesis by simp
qed

end
